theory Spec2Isabelle
  imports Main "HOL-Library.Multiset"
begin

section \<open>Data model\<close>

text \<open>
  The entities of \<^verbatim>\<open>iota/commands/extended/utils.py\<close>. Tryte strings are opaque
  identifiers; they are modelled as strings. An exception is a value of type \<open>error\<close>,
  and every operation that can raise returns \<open>error + 'a\<close> (\<open>Inl\<close> is the raise).
\<close>

type_synonym trytes = string
type_synonym Seed = trytes
type_synonym TransactionHash = trytes
type_synonym BundleHash = trytes

datatype error = ValueError | IndexError | AdapterError string

record Address =
  address_trytes :: trytes
  key_index :: int
  address_security_level :: int

record Transaction =
  hash :: TransactionHash
  bundle_hash :: BundleHash
  is_tail :: bool
  timestamp :: int
  is_confirmed :: "bool option"

record Bundle =
  transactions :: "Transaction list"
  tail_transaction :: Transaction
  bundle_is_confirmed :: "bool option"

type_synonym ScanResult = "Address \<times> TransactionHash list"

section \<open>The collaborators\<close>

text \<open>
  The six commands the two functions send through the adapter. Each is a function from
  the request to the response (the value under the key the caller reads: \<open>hashes\<close>,
  \<open>states\<close>, \<open>trytes\<close>, \<open>transactions\<close>, \<open>bundles\<close>) or to the exception it
  raises: the two functions build a fresh request for every call and keep nothing of a
  response but its value. The two requests built with \<open>list(some_set)\<close> have no defined element order in
  Python, so the command is given the set. \<open>from_tryte_string\<close> is the opaque decoder
  \<open>Transaction.from_tryte_string\<close>.
\<close>

record adapter =
  FindTransactionsCommand :: "Address list \<Rightarrow> error + TransactionHash list"
  WereAddressesSpentFromCommand :: "Address list \<Rightarrow> error + bool list"
  GetTrytesCommand :: "TransactionHash list \<Rightarrow> error + trytes list"
  from_tryte_string :: "trytes \<Rightarrow> Transaction"
  FindTransactionObjectsCommand :: "BundleHash set \<Rightarrow> error + Transaction list"
  GetLatestInclusionCommand :: "TransactionHash set \<Rightarrow> error + (TransactionHash \<rightharpoonup> bool)"
  GetBundlesCommand :: "TransactionHash list \<Rightarrow> error + Bundle list"

text \<open>The requests sent, in the order they are sent.\<close>

datatype call =
    FindTransactions "Address list"
  | WereAddressesSpentFrom "Address list"
  | GetTrytes "TransactionHash list"
  | FindTransactionObjects "BundleHash set"
  | GetLatestInclusion "TransactionHash set"
  | GetBundles "TransactionHash list"

text \<open>The exception with which the adapter answers a request, if it raises.\<close>

definition failure_of :: "error + 'a \<Rightarrow> error option" where
  "failure_of r = (case r of Inl e \<Rightarrow> Some e | Inr _ \<Rightarrow> None)"

fun raised :: "adapter \<Rightarrow> call \<Rightarrow> error option" where
  "raised ad (FindTransactions as) = failure_of (FindTransactionsCommand ad as)"
| "raised ad (WereAddressesSpentFrom as) = failure_of (WereAddressesSpentFromCommand ad as)"
| "raised ad (GetTrytes hs) = failure_of (GetTrytesCommand ad hs)"
| "raised ad (FindTransactionObjects bs) = failure_of (FindTransactionObjectsCommand ad bs)"
| "raised ad (GetLatestInclusion hs) = failure_of (GetLatestInclusionCommand ad hs)"
| "raised ad (GetBundles hs) = failure_of (GetBundlesCommand ad hs)"

text \<open>
  Modelled from the spec: \<open>AddressGenerator\<close> (module \<open>iota.crypto.addresses\<close>), whose
  \<open>create_iterator\<close> and \<open>DEFAULT_SECURITY_LEVEL\<close> the scanner uses and which is not among
  the sources. The spec describes it as the producer of a lazy infinite sequence of
  addresses at increasing indices from the start index, owner of the system-wide default
  security level, and has a negative start index rejected as an invalid argument before
  any query is issued. The derivation of an address from seed, security level and index
  is opaque (\<open>derive\<close>); the sequence is a function from the number of addresses already
  taken to the next address. The spec has the security level of an address a positive
  integer and an inconsistent security level rejected like a negative start index, so a
  level below 1 is rejected.
\<close>

record AddressGenerator =
  derive :: "Seed \<Rightarrow> int \<Rightarrow> int \<Rightarrow> trytes"
  DEFAULT_SECURITY_LEVEL :: int

text \<open>
  Modelled from the spec: the address of index \<open>i\<close> that \<open>AddressGenerator\<close> derives
  (an index, a security level and an opaque derived identifier).
\<close>

definition address_at :: "AddressGenerator \<Rightarrow> Seed \<Rightarrow> int \<Rightarrow> int \<Rightarrow> Address" where
  "address_at ag seed level i =
     \<lparr>address_trytes = derive ag seed level i, key_index = i, address_security_level = level\<rparr>"

text \<open>
  Modelled from the spec: \<open>AddressGenerator.create_iterator\<close>, the lazy infinite sequence
  of the addresses at the indices \<open>start\<close>, \<open>start + 1\<close>, ..., with a negative start
  index and a security level that is not positive rejected as invalid arguments.
\<close>

definition create_iterator ::
  "AddressGenerator \<Rightarrow> Seed \<Rightarrow> int \<Rightarrow> int \<Rightarrow> error + (nat \<Rightarrow> Address)" where
  "create_iterator ag seed level start =
     (if start < 0 \<or> level < 1 then Inl ValueError
      else Inr (\<lambda>k. address_at ag seed level (start + int k)))"

section \<open>The address usage scanner\<close>

text \<open>
  \<open>iter_used_addresses\<close> is an asynchronous generator: nothing of its body runs before
  the first pull, each pull runs the body up to the next \<open>yield\<close>, and the generator is
  closed once the body has ended (by \<open>break\<close>) or raised. A pull returns the requests it
  sent, its result, and the generator's next state.
\<close>

datatype 'a pull = Yield 'a | StopAsyncIteration | Raise error

datatype generator = Created | Suspended "nat \<Rightarrow> Address" nat | Closed

text \<open>One turn of the \<open>for\<close> loop, for the address \<open>addy\<close>.\<close>

definition scan_address :: "adapter \<Rightarrow> Address \<Rightarrow> call list \<times> ScanResult pull" where
  "scan_address ad addy =
     (case FindTransactionsCommand ad [addy] of
        Inl e \<Rightarrow> ([FindTransactions [addy]], Raise e)
      | Inr hashes \<Rightarrow>
          if hashes \<noteq> [] then ([FindTransactions [addy]], Yield (addy, hashes))
          else (case WereAddressesSpentFromCommand ad [addy] of
                  Inl e \<Rightarrow>
                    ([FindTransactions [addy], WereAddressesSpentFrom [addy]], Raise e)
                | Inr states \<Rightarrow>
                    (case states of
                       [] \<Rightarrow>
                         ([FindTransactions [addy], WereAddressesSpentFrom [addy]],
                          Raise IndexError)
                     | s # _ \<Rightarrow>
                         if s
                         then ([FindTransactions [addy], WereAddressesSpentFrom [addy]],
                               Yield (addy, []))
                         else ([FindTransactions [addy], WereAddressesSpentFrom [addy]],
                               StopAsyncIteration))))"

text \<open>Resuming the loop at the \<open>k\<close>-th address of the iterator.\<close>

definition resume ::
  "adapter \<Rightarrow> (nat \<Rightarrow> Address) \<Rightarrow> nat \<Rightarrow> call list \<times> ScanResult pull \<times> generator" where
  "resume ad it k =
     (case scan_address ad (it k) of
        (cs, Yield r) \<Rightarrow> (cs, Yield r, Suspended it (Suc k))
      | (cs, StopAsyncIteration) \<Rightarrow> (cs, StopAsyncIteration, Closed)
      | (cs, Raise e) \<Rightarrow> (cs, Raise e, Closed))"

definition iter_used_addresses ::
  "AddressGenerator \<Rightarrow> adapter \<Rightarrow> Seed \<Rightarrow> int \<Rightarrow> int option \<Rightarrow> generator \<Rightarrow>
     call list \<times> ScanResult pull \<times> generator" where
  "iter_used_addresses ag ad seed start security_level g =
     (case g of
        Closed \<Rightarrow> ([], StopAsyncIteration, Closed)
      | Suspended it k \<Rightarrow> resume ad it k
      | Created \<Rightarrow>
          (let level = (case security_level of
                          None \<Rightarrow> DEFAULT_SECURITY_LEVEL ag
                        | Some l \<Rightarrow> l)
           in case create_iterator ag seed level start of
                Inl e \<Rightarrow> ([], Raise e, Closed)
              | Inr it \<Rightarrow> resume ad it 0))"

text \<open>
  A consumer that pulls at most \<open>n\<close> results (\<open>async for\<close>, leaving the loop after \<open>n\<close>
  results at the latest): the requests sent, the results received, and how the
  iteration ended. \<open>Pending\<close>: the consumer stopped pulling; \<open>Exhausted\<close>: the
  generator ended; \<open>Failed e\<close>: the pull raised \<open>e\<close>.
\<close>

datatype outcome = Pending | Exhausted | Failed error

record scan =
  calls :: "call list"
  results :: "ScanResult list"
  ending :: outcome

fun consume ::
  "AddressGenerator \<Rightarrow> adapter \<Rightarrow> Seed \<Rightarrow> int \<Rightarrow> int option \<Rightarrow> nat \<Rightarrow> generator \<Rightarrow> scan" where
  "consume ag ad seed start security_level 0 g =
     \<lparr>calls = [], results = [], ending = Pending\<rparr>"
| "consume ag ad seed start security_level (Suc n) g =
     (case iter_used_addresses ag ad seed start security_level g of
        (cs, Yield r, g') \<Rightarrow>
          (let rest = consume ag ad seed start security_level n g'
           in \<lparr>calls = cs @ calls rest, results = r # results rest, ending = ending rest\<rparr>)
      | (cs, StopAsyncIteration, g') \<Rightarrow> \<lparr>calls = cs, results = [], ending = Exhausted\<rparr>
      | (cs, Raise e, g') \<Rightarrow> \<lparr>calls = cs, results = [], ending = Failed e\<rparr>)"

definition scan_from ::
  "AddressGenerator \<Rightarrow> adapter \<Rightarrow> Seed \<Rightarrow> int \<Rightarrow> int option \<Rightarrow> nat \<Rightarrow> scan" where
  "scan_from ag ad seed start security_level n =
     consume ag ad seed start security_level n Created"

text \<open>
  The security level the function works with, the default filled in as its first
  statement does, and the address the scanner examines at index \<open>i\<close>.
\<close>

definition effective_security_level :: "AddressGenerator \<Rightarrow> int option \<Rightarrow> int" where
  "effective_security_level ag security_level =
     (case security_level of None \<Rightarrow> DEFAULT_SECURITY_LEVEL ag | Some l \<Rightarrow> l)"

definition scanned_address :: "AddressGenerator \<Rightarrow> Seed \<Rightarrow> int option \<Rightarrow> int \<Rightarrow> Address" where
  "scanned_address ag seed security_level i =
     address_at ag seed
       (case security_level of None \<Rightarrow> DEFAULT_SECURITY_LEVEL ag | Some l \<Rightarrow> l) i"

text \<open>
  What the adapter answers for one address, as the scanner's two branches read it:
  \<open>unused_unspent\<close> is an empty \<open>hashes\<close> list together with a false first state,
  \<open>answers\<close> says that no request of the turn raises and that the \<open>states\<close> list read
  is not empty.
\<close>

definition unused_unspent :: "adapter \<Rightarrow> Address \<Rightarrow> bool" where
  "unused_unspent ad addy =
     (FindTransactionsCommand ad [addy] = Inr [] \<and>
      (case WereAddressesSpentFromCommand ad [addy] of
         Inr (s # _) \<Rightarrow> \<not> s
       | _ \<Rightarrow> False))"

definition answers :: "adapter \<Rightarrow> Address \<Rightarrow> bool" where
  "answers ad addy =
     (case FindTransactionsCommand ad [addy] of
        Inl _ \<Rightarrow> False
      | Inr hashes \<Rightarrow>
          hashes \<noteq> [] \<or>
          (case WereAddressesSpentFromCommand ad [addy] of
             Inr (_ # _) \<Rightarrow> True
           | _ \<Rightarrow> False))"

text \<open>
  The adapter whose \<open>states\<close> lists are cut after their first element, and are
  otherwise those of \<open>ad\<close>.
\<close>

definition first_state_only :: "adapter \<Rightarrow> adapter" where
  "first_state_only ad =
     ad\<lparr>WereAddressesSpentFromCommand :=
          \<lambda>as. map_sum id (take 1) (WereAddressesSpentFromCommand ad as)\<rparr>"

text \<open>The addresses a request of the scanner asks about.\<close>

fun queried :: "call \<Rightarrow> Address list" where
  "queried (FindTransactions as) = as"
| "queried (WereAddressesSpentFrom as) = as"
| "queried _ = []"

section \<open>The bundle resolver\<close>

text \<open>
  A coroutine that awaits commands returns the requests it sent and either its value or
  the exception that ended it. \<open>await\<close> sends one request; \<open>io_bind\<close> continues after a
  computation unless it raised.
\<close>

type_synonym 'a io = "call list \<times> (error + 'a)"

definition io_return :: "'a \<Rightarrow> 'a io" where
  "io_return x = ([], Inr x)"

definition await :: "call \<Rightarrow> error + 'a \<Rightarrow> 'a io" where
  "await c response = ([c], response)"

definition io_bind :: "'a io \<Rightarrow> ('a \<Rightarrow> 'b io) \<Rightarrow> 'b io" where
  "io_bind m f =
     (case m of
        (cs, Inl e) \<Rightarrow> (cs, Inl e)
      | (cs, Inr x) \<Rightarrow> (case f x of (cs', r) \<Rightarrow> (cs @ cs', r)))"

text \<open>
  The first loop: the hashes of the tail transactions and the bundle hashes of the
  others, collected into the two sets.
\<close>

fun sort_into_tail_and_non_tail ::
  "Transaction list \<Rightarrow> TransactionHash set \<times> BundleHash set \<Rightarrow>
     TransactionHash set \<times> BundleHash set" where
  "sort_into_tail_and_non_tail [] acc = acc"
| "sort_into_tail_and_non_tail (txn # txns) (tail_transaction_hashes, non_tail_bundle_hashes) =
     (if is_tail txn
      then sort_into_tail_and_non_tail txns
             (insert (hash txn) tail_transaction_hashes, non_tail_bundle_hashes)
      else sort_into_tail_and_non_tail txns
             (tail_transaction_hashes, insert (bundle_hash txn) non_tail_bundle_hashes))"

text \<open>
  The second loop, over the transactions found for the non-tail bundle hashes: a tail
  whose hash is not yet known is appended to \<open>all_transactions\<close> and its hash added.
\<close>

fun add_found_tails ::
  "Transaction list \<Rightarrow> Transaction list \<times> TransactionHash set \<Rightarrow>
     Transaction list \<times> TransactionHash set" where
  "add_found_tails [] acc = acc"
| "add_found_tails (txn # txns) (all_transactions, tail_transaction_hashes) =
     (if is_tail txn \<and> hash txn \<notin> tail_transaction_hashes
      then add_found_tails txns
             (all_transactions @ [txn], insert (hash txn) tail_transaction_hashes)
      else add_found_tails txns (all_transactions, tail_transaction_hashes))"

text \<open>
  Modelled from the spec: the assignment to a bundle's confirmation flag (class
  \<open>Bundle\<close> is not among the sources). The flag is the bundle's and is mirrored on its
  transactions, the tail transaction among them.
\<close>

definition set_is_confirmed :: "Bundle \<Rightarrow> bool option \<Rightarrow> Bundle" where
  "set_is_confirmed bundle new_is_confirmed =
     bundle\<lparr>bundle_is_confirmed := new_is_confirmed,
            transactions :=
              map (\<lambda>txn. txn\<lparr>is_confirmed := new_is_confirmed\<rparr>) (transactions bundle),
            tail_transaction := (tail_transaction bundle)\<lparr>is_confirmed := new_is_confirmed\<rparr>\<rparr>"

text \<open>
  The last loop, over \<open>zip(txn_bundles, tail_transactions)\<close>: the bundles that have a
  partner get its flag, in place; the others stay in the list as they are.
\<close>

fun copy_is_confirmed :: "Bundle list \<Rightarrow> Transaction list \<Rightarrow> Bundle list" where
  "copy_is_confirmed (bundle # bundles) (txn # txns) =
     set_is_confirmed bundle (is_confirmed txn) # copy_is_confirmed bundles txns"
| "copy_is_confirmed bundles [] = bundles"
| "copy_is_confirmed [] txns = []"

text \<open>
  The function body in its three parts, as its comments divide it. First part (after the
  decoding): sort the transactions into tail and non-tail, look up the tails of the
  non-tail bundles if there are any, and filter out all non-tail transactions. It
  returns \<open>tail_transactions\<close> and \<open>tail_transaction_hashes\<close>.
\<close>

definition find_tail_transactions ::
  "adapter \<Rightarrow> Transaction list \<Rightarrow> (Transaction list \<times> TransactionHash set) io" where
  "find_tail_transactions ad all_transactions =
     (let (tail_transaction_hashes, non_tail_bundle_hashes) =
            sort_into_tail_and_non_tail all_transactions ({}, {})
      in
      io_bind
        (if non_tail_bundle_hashes \<noteq> {}
         then io_bind
                (await (FindTransactionObjects non_tail_bundle_hashes)
                   (FindTransactionObjectsCommand ad non_tail_bundle_hashes))
                (\<lambda>found. io_return
                   (add_found_tails found (all_transactions, tail_transaction_hashes)))
         else io_return (all_transactions, tail_transaction_hashes))
        (\<lambda>(all_transactions, tail_transaction_hashes).
           io_return
             (filter (\<lambda>txn. hash txn \<in> tail_transaction_hashes) all_transactions,
              tail_transaction_hashes)))"

text \<open>
  Second part: attach inclusion states, if requested. \<open>states.get(txn.hash)\<close> is the
  lookup in the map, \<open>None\<close> for a hash without a state.
\<close>

definition attach_inclusion_states ::
  "adapter \<Rightarrow> bool \<Rightarrow> Transaction list \<Rightarrow> TransactionHash set \<Rightarrow> Transaction list io" where
  "attach_inclusion_states ad inclusion_states tail_transactions tail_transaction_hashes =
     (if inclusion_states
      then io_bind
             (await (GetLatestInclusion tail_transaction_hashes)
                (GetLatestInclusionCommand ad tail_transaction_hashes))
             (\<lambda>states. io_return
                (map (\<lambda>txn. txn\<lparr>is_confirmed := states (hash txn)\<rparr>) tail_transactions))
      else io_return tail_transactions)"

text \<open>
  Third part: find the bundles for each transaction, copy the flags, and sort. Python's
  \<open>sorted\<close> with a key is stable, as \<open>sort_key\<close> is.
\<close>

definition find_the_bundles :: "adapter \<Rightarrow> bool \<Rightarrow> Transaction list \<Rightarrow> Bundle list io" where
  "find_the_bundles ad inclusion_states tail_transactions =
     io_bind
       (await (GetBundles (map hash tail_transactions))
          (GetBundlesCommand ad (map hash tail_transactions)))
       (\<lambda>txn_bundles.
          io_return
            (sort_key (\<lambda>bundle. timestamp (tail_transaction bundle))
               (if inclusion_states then copy_is_confirmed txn_bundles tail_transactions
                else txn_bundles)))"

text \<open>
  The transactions decoded from a response and the bundles of a response are fresh
  objects, so the in-place updates of the source are updates of list elements.
\<close>

definition get_bundles_from_transaction_hashes ::
  "adapter \<Rightarrow> TransactionHash list \<Rightarrow> bool \<Rightarrow> Bundle list io" where
  "get_bundles_from_transaction_hashes ad transaction_hashes inclusion_states =
     (if transaction_hashes = [] then io_return []
      else
        io_bind (await (GetTrytes transaction_hashes) (GetTrytesCommand ad transaction_hashes))
          (\<lambda>trytes.
        io_bind (find_tail_transactions ad (map (from_tryte_string ad) trytes))
          (\<lambda>(tail_transactions, tail_transaction_hashes).
        io_bind
          (attach_inclusion_states ad inclusion_states tail_transactions tail_transaction_hashes)
          (\<lambda>tail_transactions.
        find_the_bundles ad inclusion_states tail_transactions))))"

text \<open>
  A computation propagates the adapter's failures when only its last request can have
  raised, and when it ends with the exception of that request if it did raise.
\<close>

definition propagates :: "adapter \<Rightarrow> 'a io \<Rightarrow> bool" where
  "propagates ad m =
     ((\<forall>c \<in> set (butlast (fst m)). raised ad c = None) \<and>
      (case snd m of
         Inl e \<Rightarrow> True
       | Inr x \<Rightarrow> \<forall>c \<in> set (fst m). raised ad c = None) \<and>
      (\<forall>e. fst m \<noteq> [] \<and> raised ad (last (fst m)) = Some e \<longrightarrow> snd m = Inl e))"

text \<open>
  Written from the spec's words (section 4.2, steps 1 to 3), to compare the function
  with: the final tail-hash set. It holds the hashes of the decoded tail transactions
  and, where there are non-tail transactions, the hashes of the tail transactions that
  the ledger's answer for their bundle identifiers holds.
\<close>

definition spec_tail_hashes :: "adapter \<Rightarrow> Transaction list \<Rightarrow> TransactionHash set" where
  "spec_tail_hashes ad decoded =
     (let tails = set (map hash (filter is_tail decoded));
          bundle_ids = set (map bundle_hash (filter (\<lambda>t. \<not> is_tail t) decoded))
      in if bundle_ids = {} then tails
         else case FindTransactionObjectsCommand ad bundle_ids of
                Inl e \<Rightarrow> tails
              | Inr found \<Rightarrow> tails \<union> set (map hash (filter is_tail found)))"

text \<open>Transactions of the two lists that have the same hash are both tails or both not.\<close>

definition same_hash_same_kind :: "Transaction list \<Rightarrow> Transaction list \<Rightarrow> bool" where
  "same_hash_same_kind xs ys =
     (\<forall>t \<in> set xs. \<forall>t' \<in> set ys. hash t = hash t' \<longrightarrow> is_tail t = is_tail t')"

section \<open>A small ledger\<close>

text \<open>
  Concrete collaborators on which the functions are evaluated. Addresses 5 and 6 are used
  (5 has a transaction, 6 was spent from), every other address is unused and unspent.
  The ledger holds three bundles: A (tail \<open>TA\<close>, timestamp 20), B (tail \<open>TB\<close> and
  a second transaction \<open>NB\<close>, timestamp 10) and C (tail \<open>TC\<close>, timestamp 20). A
  transaction's trytes are its hash.
\<close>

definition example_generator :: AddressGenerator where
  "example_generator =
     \<lparr>derive = (\<lambda>seed level i. seed @ replicate (nat i) CHR ''9''),
      DEFAULT_SECURITY_LEVEL = 2\<rparr>"

definition tail_A :: Transaction where
  "tail_A = \<lparr>hash = ''TA'', bundle_hash = ''BA'', is_tail = True, timestamp = 20,
     is_confirmed = None\<rparr>"

definition tail_B :: Transaction where
  "tail_B = \<lparr>hash = ''TB'', bundle_hash = ''BB'', is_tail = True, timestamp = 10,
     is_confirmed = None\<rparr>"

definition non_tail_B :: Transaction where
  "non_tail_B = \<lparr>hash = ''NB'', bundle_hash = ''BB'', is_tail = False, timestamp = 10,
     is_confirmed = None\<rparr>"

definition tail_C :: Transaction where
  "tail_C = \<lparr>hash = ''TC'', bundle_hash = ''BC'', is_tail = True, timestamp = 20,
     is_confirmed = None\<rparr>"

definition example_decode :: "trytes \<Rightarrow> Transaction" where
  "example_decode t =
     (if t = ''TA'' then tail_A else if t = ''TB'' then tail_B
      else if t = ''TC'' then tail_C else non_tail_B)"

definition example_bundle :: "TransactionHash \<Rightarrow> Bundle" where
  "example_bundle h =
     (if h = ''TA''
      then \<lparr>transactions = [tail_A], tail_transaction = tail_A, bundle_is_confirmed = None\<rparr>
      else if h = ''TC''
      then \<lparr>transactions = [tail_C], tail_transaction = tail_C, bundle_is_confirmed = None\<rparr>
      else \<lparr>transactions = [tail_B, non_tail_B], tail_transaction = tail_B,
             bundle_is_confirmed = None\<rparr>)"

definition example_ledger :: adapter where
  "example_ledger =
     \<lparr>FindTransactionsCommand = (\<lambda>as. Inr (if map key_index as = [5] then [''H1''] else [])),
      WereAddressesSpentFromCommand = (\<lambda>as. Inr (map (\<lambda>a. key_index a = 6) as)),
      GetTrytesCommand = (\<lambda>hs. Inr hs),
      from_tryte_string = example_decode,
      FindTransactionObjectsCommand =
        (\<lambda>bs. Inr (filter (\<lambda>t. bundle_hash t \<in> bs) [tail_A, tail_B, non_tail_B, tail_C])),
      GetLatestInclusionCommand =
        (\<lambda>hs. Inr (\<lambda>h. if h \<in> hs then map_of [(''TA'', True), (''TB'', False)] h else None)),
      GetBundlesCommand = (\<lambda>hs. Inr (map example_bundle hs))\<rparr>"

text \<open>
  The small ledger behind an adapter that times out on the address of index 4 and on
  every get-latest-inclusion request.
\<close>

definition flaky_ledger :: adapter where
  "flaky_ledger =
     example_ledger\<lparr>
       FindTransactionsCommand :=
         \<lambda>as. if map key_index as = [4] then Inl (AdapterError ''timeout'')
              else FindTransactionsCommand example_ledger as,
       GetLatestInclusionCommand := \<lambda>hs. Inl (AdapterError ''timeout'')\<rparr>"

text \<open>The small ledger behind an adapter that times out on the address of index 7.\<close>

definition late_timeout_ledger :: adapter where
  "late_timeout_ledger =
     example_ledger\<lparr>
       FindTransactionsCommand :=
         \<lambda>as. if map key_index as = [7] then Inl (AdapterError ''timeout'')
              else FindTransactionsCommand example_ledger as\<rparr>"

text \<open>
  The small ledger behind an adapter whose get-bundles response leaves out bundle A
  (its transactions are pruned), so that the response is shorter than the request.
\<close>

definition pruned_ledger :: adapter where
  "pruned_ledger =
     example_ledger\<lparr>
       GetBundlesCommand :=
         \<lambda>hs. Inr (map example_bundle (filter (\<lambda>h. h \<noteq> ''TA'') hs))\<rparr>"

section \<open>Facts about the scanner\<close>

lemma consume_Suspended:
  "consume ag ad seed start sl (Suc n) (Suspended it k) =
     (case scan_address ad (it k) of
        (cs, Yield r) \<Rightarrow>
          \<lparr>calls = cs @ calls (consume ag ad seed start sl n (Suspended it (Suc k))),
           results = r # results (consume ag ad seed start sl n (Suspended it (Suc k))),
           ending = ending (consume ag ad seed start sl n (Suspended it (Suc k)))\<rparr>
      | (cs, StopAsyncIteration) \<Rightarrow> \<lparr>calls = cs, results = [], ending = Exhausted\<rparr>
      | (cs, Raise e) \<Rightarrow> \<lparr>calls = cs, results = [], ending = Failed e\<rparr>)"
  by (simp add: iter_used_addresses_def resume_def Let_def split: prod.splits pull.splits)

lemma consume_Created:
  "0 \<le> start \<Longrightarrow> 1 \<le> effective_security_level ag sl \<Longrightarrow>
   consume ag ad seed start sl n Created =
   consume ag ad seed start sl n
     (Suspended (\<lambda>k. address_at ag seed (case sl of None \<Rightarrow> DEFAULT_SECURITY_LEVEL ag | Some l \<Rightarrow> l)
        (start + int k)) 0)"
  by (cases n)
    (simp_all add: iter_used_addresses_def create_iterator_def effective_security_level_def Let_def)

lemma consume_Created_rejected:
  "start < 0 \<or> effective_security_level ag sl < 1 \<Longrightarrow>
   consume ag ad seed start sl (Suc n) Created = \<lparr>calls = [], results = [], ending = Failed ValueError\<rparr>"
  by (auto simp add: iter_used_addresses_def create_iterator_def effective_security_level_def Let_def)

lemma scan_address_Yield_fst:
  "scan_address ad a = (cs, Yield r) \<Longrightarrow> fst r = a"
  by (auto simp: scan_address_def split: sum.splits if_splits list.splits)

lemma results_Suspended:
  "map fst (results (consume ag ad seed start sl n (Suspended it k))) =
   map it [k ..< k + length (results (consume ag ad seed start sl n (Suspended it k)))]"
proof (induction n arbitrary: k)
  case 0
  show ?case by simp
next
  case (Suc n)
  show ?case
  proof (cases "scan_address ad (it k)")
    case (Pair cs p)
    show ?thesis
    proof (cases p)
      case (Yield r)
      with Pair have "fst r = it k" by (simp add: scan_address_Yield_fst)
      with Pair Yield Suc.IH [of "Suc k"] show ?thesis
        by (simp add: consume_Suspended upt_conv_Cons del: upt_Suc consume.simps)
    qed (use Pair in \<open>simp_all add: consume_Suspended del: consume.simps\<close>)
  qed
qed


lemma scan_address_unused_unspent:
  "unused_unspent ad a \<Longrightarrow>
   scan_address ad a = ([FindTransactions [a], WereAddressesSpentFrom [a]], StopAsyncIteration)"
  by (auto simp: unused_unspent_def scan_address_def split: sum.splits list.splits)

lemma scan_address_used:
  "answers ad a \<Longrightarrow> \<not> unused_unspent ad a \<Longrightarrow> \<exists>cs hs. scan_address ad a = (cs, Yield (a, hs))"
  by (auto simp: answers_def unused_unspent_def scan_address_def split: sum.splits list.splits)

lemma scan_address_queried:
  "scan_address ad a = (cs, p) \<Longrightarrow> c \<in> set cs \<Longrightarrow> queried c = [a]"
  by (auto simp: scan_address_def split: sum.splits list.splits if_splits)

lemma scan_address_FindTransactions:
  "scan_address ad a = (cs, p) \<Longrightarrow> FindTransactions as \<in> set cs \<longleftrightarrow> as = [a]"
  by (auto simp: scan_address_def split: sum.splits list.splits if_splits)

lemma scan_address_WereAddressesSpentFrom:
  "scan_address ad a = (cs, p) \<Longrightarrow>
   WereAddressesSpentFrom as \<in> set cs \<longleftrightarrow> as = [a] \<and> FindTransactionsCommand ad [a] = Inr []"
  by (auto simp: scan_address_def split: sum.splits list.splits if_splits)

lemma scan_address_hashes:
  "scan_address ad a = (cs, p) \<Longrightarrow> FindTransactionsCommand ad [a] = Inr hs \<Longrightarrow> hs \<noteq> [] \<Longrightarrow>
   p = Yield (a, hs)"
  by (auto simp: scan_address_def split: sum.splits list.splits if_splits)

lemma scan_address_calls_nonempty: "scan_address ad a = (cs, p) \<Longrightarrow> cs \<noteq> []"
  by (auto simp: scan_address_def split: sum.splits list.splits if_splits)

lemma scan_address_butlast:
  "scan_address ad a = (cs, p) \<Longrightarrow> c \<in> set (butlast cs) \<Longrightarrow> raised ad c = None"
  by (auto simp: scan_address_def failure_of_def split: sum.splits list.splits if_splits)

lemma scan_address_Yield_raised:
  "scan_address ad a = (cs, Yield r) \<Longrightarrow> c \<in> set cs \<Longrightarrow> raised ad c = None"
  by (auto simp: scan_address_def failure_of_def split: sum.splits list.splits if_splits)

lemma scan_address_last_raised:
  "scan_address ad a = (cs, p) \<Longrightarrow> raised ad (last cs) = Some e \<Longrightarrow> p = Raise e"
  by (auto simp: scan_address_def failure_of_def split: sum.splits list.splits if_splits)

lemma scan_address_Raise:
  "scan_address ad a = (cs, Raise e) \<Longrightarrow>
   raised ad (last cs) = Some e \<or>
   (e = IndexError \<and> WereAddressesSpentFromCommand ad [a] = Inr [])"
  by (auto simp: scan_address_def failure_of_def split: sum.splits list.splits if_splits)

lemma stop_finite:
  "unused_unspent ad (it m) \<Longrightarrow> k \<le> m \<Longrightarrow> m - k < n \<Longrightarrow>
   ending (consume ag ad seed start sl n (Suspended it k)) \<noteq> Pending"
proof (induction n arbitrary: k)
  case 0 then show ?case by simp
next
  case (Suc n)
  show ?case
  proof (cases "k = m")
    case True
    with Suc.prems show ?thesis
      by (simp add: consume_Suspended scan_address_unused_unspent del: consume.simps)
  next
    case False
    with Suc.prems have "Suc k \<le> m" "m - Suc k < n" by simp_all
    from Suc.IH [OF Suc.prems(1) this] show ?thesis
      by (simp add: consume_Suspended del: consume.simps split: prod.splits pull.splits)
  qed
qed

lemma stop_results_bound:
  "unused_unspent ad (it m) \<Longrightarrow> k \<le> m \<Longrightarrow>
   length (results (consume ag ad seed start sl n (Suspended it k))) \<le> m - k"
proof (induction n arbitrary: k)
  case 0 then show ?case by simp
next
  case (Suc n)
  show ?case
  proof (cases "k = m")
    case True
    with Suc.prems show ?thesis
      by (simp add: consume_Suspended scan_address_unused_unspent del: consume.simps)
  next
    case False
    with Suc.prems have "Suc k \<le> m" by simp
    from Suc.IH [OF Suc.prems(1) this] False Suc.prems(2) show ?thesis
      by (auto simp add: consume_Suspended simp del: consume.simps split: prod.splits pull.splits)
  qed
qed

lemma stop_calls_bound:
  "unused_unspent ad (it m) \<Longrightarrow> k \<le> m \<Longrightarrow>
   c \<in> set (calls (consume ag ad seed start sl n (Suspended it k))) \<Longrightarrow>
   \<exists>j. k \<le> j \<and> j \<le> m \<and> queried c = [it j]"
proof (induction n arbitrary: k)
  case 0 then show ?case by simp
next
  case (Suc n)
  obtain cs p where sa: "scan_address ad (it k) = (cs, p)" by (cases "scan_address ad (it k)")
  show ?case
  proof (cases "c \<in> set cs")
    case True
    with sa have "queried c = [it k]" by (rule scan_address_queried)
    with Suc.prems(2) show ?thesis by blast
  next
    case False
    with Suc.prems(3) sa obtain r where p: "p = Yield r"
      and c: "c \<in> set (calls (consume ag ad seed start sl n (Suspended it (Suc k))))"
      by (cases p) (auto simp add: consume_Suspended simp del: consume.simps)
    from sa p Suc.prems(1) have "k \<noteq> m"
      by (auto simp: scan_address_unused_unspent)
    with Suc.prems(2) have "Suc k \<le> m" by simp
    from Suc.IH [OF Suc.prems(1) this c] show ?thesis
      by (meson Suc_leD)
  qed
qed

lemma stop_exact:
  "unused_unspent ad (it m) \<Longrightarrow> k \<le> m \<Longrightarrow> m - k < n \<Longrightarrow>
   (\<And>j. k \<le> j \<Longrightarrow> j < m \<Longrightarrow> answers ad (it j) \<and> \<not> unused_unspent ad (it j)) \<Longrightarrow>
   length (results (consume ag ad seed start sl n (Suspended it k))) = m - k \<and>
   ending (consume ag ad seed start sl n (Suspended it k)) = Exhausted"
proof (induction n arbitrary: k)
  case 0 then show ?case by simp
next
  case (Suc n)
  show ?case
  proof (cases "k = m")
    case True
    with Suc.prems show ?thesis
      by (simp add: consume_Suspended scan_address_unused_unspent del: consume.simps)
  next
    case False
    with Suc.prems have lt: "k < m" and le: "Suc k \<le> m" and n: "m - Suc k < n" by simp_all
    from Suc.prems(4) [of k] lt obtain cs hs where sa: "scan_address ad (it k) = (cs, Yield (it k, hs))"
      using scan_address_used by blast
    have "length (results (consume ag ad seed start sl n (Suspended it (Suc k)))) = m - Suc k \<and>
          ending (consume ag ad seed start sl n (Suspended it (Suc k))) = Exhausted"
      by (rule Suc.IH [OF Suc.prems(1) le n]) (simp add: Suc.prems(4))
    with sa lt show ?thesis
      by (simp add: consume_Suspended del: consume.simps)
  qed
qed

lemma FindTransactions_calls_yield:
  "FindTransactions [a] \<in> set (calls (consume ag ad seed start sl n (Suspended it k))) \<Longrightarrow>
   FindTransactionsCommand ad [a] = Inr hs \<Longrightarrow> hs \<noteq> [] \<Longrightarrow>
   (a, hs) \<in> set (results (consume ag ad seed start sl n (Suspended it k)))"
proof (induction n arbitrary: k)
  case 0 then show ?case by simp
next
  case (Suc n)
  obtain cs p where sa: "scan_address ad (it k) = (cs, p)" by (cases "scan_address ad (it k)")
  show ?case
  proof (cases "FindTransactions [a] \<in> set cs")
    case True
    with sa have "it k = a" by (simp add: scan_address_FindTransactions)
    with sa Suc.prems(2,3) have "p = Yield (a, hs)" by (simp add: scan_address_hashes)
    with sa show ?thesis by (simp add: consume_Suspended del: consume.simps)
  next
    case False
    with Suc.prems(1) sa obtain r where p: "p = Yield r"
      and c: "FindTransactions [a] \<in> set (calls (consume ag ad seed start sl n (Suspended it (Suc k))))"
      by (cases p) (auto simp add: consume_Suspended simp del: consume.simps)
    from Suc.IH [OF c Suc.prems(2,3)] sa p show ?thesis
      by (simp add: consume_Suspended del: consume.simps)
  qed
qed

lemma WereAddressesSpentFrom_calls:
  "WereAddressesSpentFrom as \<in> set (calls (consume ag ad seed start sl n (Suspended it k))) \<longleftrightarrow>
   (\<exists>a. as = [a] \<and> FindTransactionsCommand ad [a] = Inr [] \<and>
        FindTransactions [a] \<in> set (calls (consume ag ad seed start sl n (Suspended it k))))"
proof (induction n arbitrary: k)
  case 0 then show ?case by simp
next
  case (Suc n)
  obtain cs p where sa: "scan_address ad (it k) = (cs, p)" by (cases "scan_address ad (it k)")
  note here = scan_address_FindTransactions [OF sa] scan_address_WereAddressesSpentFrom [OF sa]
  show ?case
  proof (cases p)
    case (Yield r)
    with sa show ?thesis
      using here Suc.IH [of "Suc k"]
      by (simp add: consume_Suspended del: consume.simps) blast
  next
    case StopAsyncIteration
    with sa show ?thesis using here
      by (auto simp add: consume_Suspended simp del: consume.simps)
  next
    case (Raise e)
    with sa show ?thesis using here
      by (auto simp add: consume_Suspended simp del: consume.simps)
  qed
qed

lemma calls_butlast_raised:
  "c \<in> set (butlast (calls (consume ag ad seed start sl n (Suspended it k)))) \<Longrightarrow> raised ad c = None"
proof (induction n arbitrary: k)
  case 0 then show ?case by simp
next
  case (Suc n)
  obtain cs p where sa: "scan_address ad (it k) = (cs, p)" by (cases "scan_address ad (it k)")
  show ?case
  proof (cases p)
    case (Yield r)
    let ?rest = "calls (consume ag ad seed start sl n (Suspended it (Suc k)))"
    from Suc.prems sa Yield have "c \<in> set (butlast (cs @ ?rest))"
      by (simp add: consume_Suspended del: consume.simps)
    then have "c \<in> set cs \<or> c \<in> set (butlast ?rest)"
      by (auto simp: butlast_append dest: in_set_butlastD split: if_splits)
    then show ?thesis
      using Suc.IH [of "Suc k"] scan_address_Yield_raised [OF sa [unfolded Yield]] by blast
  next
    case StopAsyncIteration
    with Suc.prems sa show ?thesis
      by (auto simp add: consume_Suspended scan_address_butlast simp del: consume.simps)
  next
    case (Raise e)
    with Suc.prems sa show ?thesis
      by (auto simp add: consume_Suspended scan_address_butlast simp del: consume.simps)
  qed
qed

lemma calls_last_raised:
  "calls (consume ag ad seed start sl n (Suspended it k)) \<noteq> [] \<Longrightarrow>
   raised ad (last (calls (consume ag ad seed start sl n (Suspended it k)))) = Some e \<Longrightarrow>
   ending (consume ag ad seed start sl n (Suspended it k)) = Failed e"
proof (induction n arbitrary: k)
  case 0 then show ?case by simp
next
  case (Suc n)
  obtain cs p where sa: "scan_address ad (it k) = (cs, p)" by (cases "scan_address ad (it k)")
  have ne: "cs \<noteq> []" using sa by (rule scan_address_calls_nonempty)
  show ?case
  proof (cases p)
    case (Yield r)
    let ?rest = "consume ag ad seed start sl n (Suspended it (Suc k))"
    show ?thesis
    proof (cases "calls ?rest = []")
      case True
      with Suc.prems(2) sa Yield have "raised ad (last cs) = Some e"
        by (simp add: consume_Suspended del: consume.simps)
      moreover have "last cs \<in> set cs" using ne by simp
      ultimately show ?thesis
        using scan_address_Yield_raised [OF sa [unfolded Yield]] by fastforce
    next
      case False
      with Suc.prems(2) sa Yield have "raised ad (last (calls ?rest)) = Some e"
        by (simp add: consume_Suspended del: consume.simps)
      from Suc.IH [OF False this] sa Yield show ?thesis
        by (simp add: consume_Suspended del: consume.simps)
    qed
  next
    case StopAsyncIteration
    with Suc.prems sa scan_address_last_raised [OF sa] show ?thesis
      by (auto simp add: consume_Suspended simp del: consume.simps)
  next
    case (Raise e')
    with Suc.prems sa scan_address_last_raised [OF sa] show ?thesis
      by (auto simp add: consume_Suspended simp del: consume.simps)
  qed
qed

lemma results_extend:
  "m \<le> n \<Longrightarrow>
   \<exists>more. results (consume ag ad seed start sl n g) = results (consume ag ad seed start sl m g) @ more"
proof (induction m arbitrary: n g)
  case 0 then show ?case by simp
next
  case (Suc m)
  then obtain n' where n: "n = Suc n'" and le: "m \<le> n'" by (cases n) auto
  obtain cs p g' where step: "iter_used_addresses ag ad seed start sl g = (cs, p, g')"
    by (cases "iter_used_addresses ag ad seed start sl g")
  show ?case
  proof (cases p)
    case (Yield r)
    from Suc.IH [OF le, of g'] step Yield n show ?thesis by (simp add: Let_def)
  qed (use step n in simp_all)
qed

lemma ending_Failed:
  "(\<And>a states. WereAddressesSpentFromCommand ad [a] = Inr states \<Longrightarrow> states \<noteq> []) \<Longrightarrow>
   ending (consume ag ad seed start sl n (Suspended it k)) = Failed e \<Longrightarrow>
   calls (consume ag ad seed start sl n (Suspended it k)) \<noteq> [] \<and>
   raised ad (last (calls (consume ag ad seed start sl n (Suspended it k)))) = Some e"
proof (induction n arbitrary: k)
  case 0 then show ?case by simp
next
  case (Suc n)
  obtain cs p where sa: "scan_address ad (it k) = (cs, p)" by (cases "scan_address ad (it k)")
  have ne: "cs \<noteq> []" using sa by (rule scan_address_calls_nonempty)
  show ?case
  proof (cases p)
    case (Yield r)
    with Suc.prems(2) sa
    have "ending (consume ag ad seed start sl n (Suspended it (Suc k))) = Failed e"
      by (simp add: consume_Suspended del: consume.simps)
    from Suc.IH [OF Suc.prems(1) this] sa Yield show ?thesis
      by (simp add: consume_Suspended del: consume.simps)
  next
    case StopAsyncIteration
    with Suc.prems(2) sa show ?thesis by (simp add: consume_Suspended del: consume.simps)
  next
    case (Raise e')
    with Suc.prems(2) sa have e: "e' = e" by (simp add: consume_Suspended del: consume.simps)
    from scan_address_Raise [OF sa [unfolded Raise e]] Suc.prems(1)
    have "raised ad (last cs) = Some e" by blast
    with sa Raise e ne show ?thesis by (simp add: consume_Suspended del: consume.simps)
  qed
qed

lemma scan_address_first_state:
  "scan_address (first_state_only ad) a = scan_address ad a"
  by (auto simp: scan_address_def first_state_only_def split: sum.splits list.splits)

lemma consume_first_state:
  "consume ag (first_state_only ad) seed start sl n g = consume ag ad seed start sl n g"
proof (induction n arbitrary: g)
  case 0 show ?case by simp
next
  case (Suc n)
  have "iter_used_addresses ag (first_state_only ad) seed start sl g =
     iter_used_addresses ag ad seed start sl g"
    by (simp add: iter_used_addresses_def resume_def scan_address_first_state
          split: generator.splits sum.splits)
  with Suc.IH show ?case by (simp split: prod.splits pull.splits)
qed

lemmas ex_defs = example_generator_def example_ledger_def flaky_ledger_def
  late_timeout_ledger_def pruned_ledger_def
  tail_A_def tail_B_def tail_C_def non_tail_B_def example_decode_def example_bundle_def
lemmas scan_defs = scan_from_def iter_used_addresses_def resume_def scan_address_def
  create_iterator_def address_at_def scanned_address_def
lemmas resolve_defs = get_bundles_from_transaction_hashes_def find_tail_transactions_def
  attach_inclusion_states_def find_the_bundles_def io_bind_def io_return_def await_def
  set_is_confirmed_def

lemma scan_from_Suspended:
  "0 \<le> start \<Longrightarrow> 1 \<le> effective_security_level ag sl \<Longrightarrow>
   scan_from ag ad seed start sl n =
   consume ag ad seed start sl n (Suspended (\<lambda>k. scanned_address ag seed sl (start + int k)) 0)"
  by (simp add: scan_from_def consume_Created scanned_address_def)

lemma scan_from_rejected:
  "start < 0 \<or> effective_security_level ag sl < 1 \<Longrightarrow>
   calls (scan_from ag ad seed start sl n) = [] \<and> results (scan_from ag ad seed start sl n) = [] \<and>
   (0 < n \<longrightarrow> ending (scan_from ag ad seed start sl n) = Failed ValueError)"
  by (cases n) (simp_all add: scan_from_def consume_Created_rejected del: consume.simps(2))

lemma map_upt_upto: "map (\<lambda>j. start + int j) [0 ..< m] = [start .. start + int m - 1]"
proof (induction m)
  case 0 show ?case by simp
next
  case (Suc m)
  have "[start .. start + int (Suc m) - 1] = [start .. start + int m - 1] @ [start + int m]"
    using upto_rec2 [of start "start + int m"] by simp
  with Suc show ?case by simp
qed


lemma results_indices:
  "map (key_index \<circ> fst) (results (scan_from ag ad seed start security_level n)) =
   map (\<lambda>j. start + int j) [0 ..< length (results (scan_from ag ad seed start security_level n))]"
proof (cases "0 \<le> start \<and> 1 \<le> effective_security_level ag security_level")
  case True
  let ?it = "\<lambda>k. address_at ag seed (case security_level of None \<Rightarrow> DEFAULT_SECURITY_LEVEL ag | Some l \<Rightarrow> l) (start + int k)"
  let ?r = "results (consume ag ad seed start security_level n (Suspended ?it 0))"
  have "map (key_index \<circ> fst) ?r = map key_index (map fst ?r)" by simp
  also have "\<dots> = map key_index (map ?it [0 ..< 0 + length ?r])"
    by (subst results_Suspended) simp
  also have "\<dots> = map (\<lambda>j. start + int j) [0 ..< length ?r]"
    by (simp add: address_at_def)
  finally show ?thesis using True by (simp add: scan_from_def consume_Created)
next
  case False
  then have "results (scan_from ag ad seed start security_level n) = []"
    using scan_from_rejected [of start ag security_level] by auto
  then show ?thesis by simp
qed

section \<open>The claims about the scanner\<close>

text \<open>
  C1. The addresses yielded by the scanner have the indices \<open>start\<close>, \<open>start + 1\<close>, ...
  in this order: no yielded index is below \<open>start\<close>, none is skipped and none is
  repeated. This holds for every adapter, every start index and every number of pulls
  (a scan started at a negative index yields nothing).
\<close>

theorem scanner_indices_contiguous:
  "map (key_index \<circ> fst) (results (scan_from ag ad seed start security_level n)) =
   map (\<lambda>j. start + int j) [0 ..< length (results (scan_from ag ad seed start security_level n))]"
  by (rule results_indices)

text \<open>C1 on the small ledger: started at 5, the scanner yields the indices 5 and 6.\<close>

theorem scanner_indices_contiguous_witness:
  "map (key_index \<circ> fst) (results (scan_from example_generator example_ledger ''SEED'' 5 None 4)) =
   [5, 6]"
  using scanner_indices_contiguous [of example_generator example_ledger "''SEED''" 5 None 4]
  by (simp add: ex_defs scan_defs numeral_eq_Suc Let_def)


text \<open>
  C2, as stated, fails. Behind the adapter that times out on index 4, index 7 is the
  first index from 4 on that is unused and unspent, and the scan started at 4 yields no
  result at all, although the indices 4, 5 and 6 lie before 7.
\<close>

theorem scanner_stop_counterexample:
  "unused_unspent flaky_ledger (scanned_address example_generator ''SEED'' None 7) \<and>
   \<not> unused_unspent flaky_ledger (scanned_address example_generator ''SEED'' None 4) \<and>
   \<not> unused_unspent flaky_ledger (scanned_address example_generator ''SEED'' None 5) \<and>
   \<not> unused_unspent flaky_ledger (scanned_address example_generator ''SEED'' None 6) \<and>
   results (scan_from example_generator flaky_ledger ''SEED'' 4 None 4) = []"
  by (simp add: ex_defs scan_defs unused_unspent_def numeral_eq_Suc Let_def)


text \<open>
  C2, amended. Let the start index and the security level be valid (the index not
  negative, the level positive), and let index \<open>i\<close>, not below the start index, have an
  empty find-transactions result and a false first were-spent-from state. Then the
  sequence is
  finite (after more than \<open>i - start\<close> pulls the generator has ended or failed), every
  yielded index is below \<open>i\<close>, and no address with an index above \<open>i\<close> is queried. If
  moreover the adapter answers for every index before \<open>i\<close> without raising and \<open>i\<close> is
  the first such index, the yielded indices are exactly \<open>start, ..., i - 1\<close>, one
  result each, and the generator ends normally.
\<close>

theorem scanner_stops_at_unused_unspent:
  assumes "0 \<le> start" and "start \<le> i"
    and "unused_unspent ad (scanned_address ag seed security_level i)"
    and "1 \<le> effective_security_level ag security_level"
  shows "(nat (i - start) < n \<longrightarrow> ending (scan_from ag ad seed start security_level n) \<noteq> Pending) \<and>
    (\<forall>r \<in> set (results (scan_from ag ad seed start security_level n)). key_index (fst r) < i) \<and>
    (\<forall>c \<in> set (calls (scan_from ag ad seed start security_level n)).
       \<forall>a \<in> set (queried c). key_index a \<le> i) \<and>
    ((\<forall>j. start \<le> j \<and> j < i \<longrightarrow>
        answers ad (scanned_address ag seed security_level j) \<and>
        \<not> unused_unspent ad (scanned_address ag seed security_level j)) \<longrightarrow>
     nat (i - start) < n \<longrightarrow>
       map (key_index \<circ> fst) (results (scan_from ag ad seed start security_level n)) = [start .. i - 1] \<and>
       ending (scan_from ag ad seed start security_level n) = Exhausted)"
proof -
  define it where "it = (\<lambda>k. scanned_address ag seed security_level (start + int k))"
  define m where "m = nat (i - start)"
  let ?S = "scan_from ag ad seed start security_level n"
  have S: "?S = consume ag ad seed start security_level n (Suspended it 0)"
    unfolding it_def using assms(1,4) by (rule scan_from_Suspended)
  have stop: "unused_unspent ad (it m)" using assms(1-3) by (simp add: it_def m_def)
  have idx: "map (key_index \<circ> fst) (results ?S) = map (\<lambda>j. start + int j) [0 ..< length (results ?S)]"
    by (rule results_indices)
  have len: "length (results ?S) \<le> m"
    using stop_results_bound [where it = it and m = m and k = 0, OF stop] by (simp add: S)
  have 1: "nat (i - start) < n \<longrightarrow> ending ?S \<noteq> Pending"
    using stop_finite [where it = it and m = m and k = 0, OF stop] by (simp add: S m_def)
  have 2: "\<forall>r \<in> set (results ?S). key_index (fst r) < i"
  proof
    fix r assume "r \<in> set (results ?S)"
    then have "key_index (fst r) \<in> set (map (key_index \<circ> fst) (results ?S))" by force
    then have "key_index (fst r) \<in> (\<lambda>j. start + int j) ` {0 ..< length (results ?S)}"
      by (simp only: idx set_map set_upt)
    with len assms(2) show "key_index (fst r) < i" by (auto simp: m_def)
  qed
  have 3: "\<forall>c \<in> set (calls ?S). \<forall>a \<in> set (queried c). key_index a \<le> i"
  proof (intro ballI)
    fix c a assume c: "c \<in> set (calls ?S)" and a: "a \<in> set (queried c)"
    from c have "c \<in> set (calls (consume ag ad seed start security_level n (Suspended it 0)))"
      by (simp add: S)
    from stop_calls_bound [where it = it and m = m and k = 0, OF stop _ this]
    obtain j where "j \<le> m" "queried c = [it j]" by auto
    with a assms(2) show "key_index a \<le> i"
      by (auto simp: scanned_address_def address_at_def it_def m_def)
  qed
  have 4: "map (key_index \<circ> fst) (results ?S) = [start .. i - 1] \<and> ending ?S = Exhausted"
    if used: "\<forall>j. start \<le> j \<and> j < i \<longrightarrow>
        answers ad (scanned_address ag seed security_level j) \<and>
        \<not> unused_unspent ad (scanned_address ag seed security_level j)"
      and n: "nat (i - start) < n"
  proof -
    have "length (results ?S) = m - 0 \<and> ending ?S = Exhausted"
      unfolding S
    proof (rule stop_exact [where it = it and m = m and k = 0, OF stop])
      show "0 \<le> m" by simp
      show "m - 0 < n" using n by (simp add: m_def)
      fix j :: nat assume "0 \<le> j" "j < m"
      then have "start \<le> start + int j \<and> start + int j < i" by (auto simp: m_def)
      with used show "answers ad (it j) \<and> \<not> unused_unspent ad (it j)"
        unfolding it_def by blast
    qed
    moreover have "map (\<lambda>j. start + int j) [0 ..< m] = [start .. i - 1]"
      using map_upt_upto [of start m] assms(2) by (simp add: m_def)
    ultimately show ?thesis using idx by simp
  qed
  from 1 2 3 4 show ?thesis by blast
qed

text \<open>
  The amended C2 on the small ledger: started at 5 with index 7 unused and unspent, the
  scanner yields exactly the indices 5 and 6 and ends.
\<close>

theorem scanner_stops_at_unused_unspent_witness:
  "unused_unspent example_ledger (scanned_address example_generator ''SEED'' None 7) \<and>
   1 \<le> effective_security_level example_generator None \<and>
   map (key_index \<circ> fst) (results (scan_from example_generator example_ledger ''SEED'' 5 None 4)) =
     [5, 6] \<and>
   ending (scan_from example_generator example_ledger ''SEED'' 5 None 4) = Exhausted"
proof -
  have level: "1 \<le> effective_security_level example_generator None"
    by (simp add: effective_security_level_def example_generator_def)
  have stop: "unused_unspent example_ledger (scanned_address example_generator ''SEED'' None 7)"
    by (simp add: ex_defs scan_defs unused_unspent_def)
  have used: "\<forall>j. 5 \<le> j \<and> j < 7 \<longrightarrow>
      answers example_ledger (scanned_address example_generator ''SEED'' None j) \<and>
      \<not> unused_unspent example_ledger (scanned_address example_generator ''SEED'' None j)"
  proof (intro allI impI)
    fix j :: int assume "5 \<le> j \<and> j < 7"
    then have "j = 5 \<or> j = 6" by arith
    then show "answers example_ledger (scanned_address example_generator ''SEED'' None j) \<and>
      \<not> unused_unspent example_ledger (scanned_address example_generator ''SEED'' None j)"
      by (auto simp: ex_defs scan_defs unused_unspent_def answers_def)
  qed
  have "[5 .. 7 - 1] = [5, 6 :: int]" by (simp add: upto.simps)
  with used stop level
    scanner_stops_at_unused_unspent [where start = 5 and i = 7 and ad = example_ledger
      and ag = example_generator and seed = "''SEED''" and security_level = None and n = 4]
  show ?thesis by simp
qed


text \<open>
  C3. Whenever the scanner has asked find-transactions about an address and the answer
  is a non-empty list of hashes, the pair of the address and these hashes is among the
  results and no were-spent-from request for that address is ever sent. A
  were-spent-from request is sent exactly for the addresses the scanner has asked
  find-transactions about and whose answer is the empty list.
\<close>

theorem scanner_skips_spent_check:
  "(FindTransactions [a] \<in> set (calls (scan_from ag ad seed start security_level n)) \<and>
    FindTransactionsCommand ad [a] = Inr hs \<and> hs \<noteq> [] \<longrightarrow>
      (a, hs) \<in> set (results (scan_from ag ad seed start security_level n)) \<and>
      WereAddressesSpentFrom [a] \<notin> set (calls (scan_from ag ad seed start security_level n))) \<and>
   (WereAddressesSpentFrom as \<in> set (calls (scan_from ag ad seed start security_level n)) \<longleftrightarrow>
      (\<exists>b. as = [b] \<and> FindTransactionsCommand ad [b] = Inr [] \<and>
           FindTransactions [b] \<in> set (calls (scan_from ag ad seed start security_level n))))"
proof (cases "0 \<le> start \<and> 1 \<le> effective_security_level ag security_level")
  case True
  define it where "it = (\<lambda>k. scanned_address ag seed security_level (start + int k))"
  have S: "scan_from ag ad seed start security_level n =
      consume ag ad seed start security_level n (Suspended it 0)"
    unfolding it_def using True by (simp add: scan_from_Suspended)
  let ?C = "calls (consume ag ad seed start security_level n (Suspended it 0))"
  let ?R = "results (consume ag ad seed start security_level n (Suspended it 0))"
  have spent: "WereAddressesSpentFrom as \<in> set ?C \<longleftrightarrow>
      (\<exists>b. as = [b] \<and> FindTransactionsCommand ad [b] = Inr [] \<and> FindTransactions [b] \<in> set ?C)"
    for as
    by (rule WereAddressesSpentFrom_calls)
  have "(a, hs) \<in> set ?R \<and> WereAddressesSpentFrom [a] \<notin> set ?C"
    if "FindTransactions [a] \<in> set ?C" "FindTransactionsCommand ad [a] = Inr hs" "hs \<noteq> []"
  proof
    from that show "(a, hs) \<in> set ?R" by (rule FindTransactions_calls_yield)
    from that(2,3) show "WereAddressesSpentFrom [a] \<notin> set ?C" by (simp add: spent)
  qed
  with spent [of as] show ?thesis unfolding S by (simp (no_asm_simp))
next
  case False
  then have "calls (scan_from ag ad seed start security_level n) = []"
    using scan_from_rejected [of start ag security_level] by auto
  then show ?thesis by simp
qed


text \<open>
  C3 on the small ledger: address 5 has a transaction and is yielded without a
  were-spent-from request; address 6 has none and is asked about.
\<close>

theorem scanner_skips_spent_check_witness:
  "FindTransactions [scanned_address example_generator ''SEED'' None 5]
     \<in> set (calls (scan_from example_generator example_ledger ''SEED'' 5 None 4)) \<and>
   FindTransactionsCommand example_ledger [scanned_address example_generator ''SEED'' None 5] =
     Inr [''H1''] \<and>
   (scanned_address example_generator ''SEED'' None 5, [''H1''])
     \<in> set (results (scan_from example_generator example_ledger ''SEED'' 5 None 4)) \<and>
   WereAddressesSpentFrom [scanned_address example_generator ''SEED'' None 5]
     \<notin> set (calls (scan_from example_generator example_ledger ''SEED'' 5 None 4)) \<and>
   WereAddressesSpentFrom [scanned_address example_generator ''SEED'' None 6]
     \<in> set (calls (scan_from example_generator example_ledger ''SEED'' 5 None 4))"
proof -
  have 1: "FindTransactions [scanned_address example_generator ''SEED'' None 5]
     \<in> set (calls (scan_from example_generator example_ledger ''SEED'' 5 None 4))"
    by (simp add: ex_defs scan_defs numeral_eq_Suc Let_def)
  have 2: "FindTransactionsCommand example_ledger [scanned_address example_generator ''SEED'' None 5] =
     Inr [''H1'']"
    by (simp add: ex_defs scan_defs)
  have 3: "FindTransactionsCommand example_ledger [scanned_address example_generator ''SEED'' None 6] =
     Inr []"
    by (simp add: ex_defs scan_defs)
  have 4: "FindTransactions [scanned_address example_generator ''SEED'' None 6]
     \<in> set (calls (scan_from example_generator example_ledger ''SEED'' 5 None 4))"
    by (simp add: ex_defs scan_defs numeral_eq_Suc Let_def)
  from 1 2 3 4
    scanner_skips_spent_check [where ag = example_generator and ad = example_ledger
      and seed = "''SEED''" and start = 5 and security_level = None and n = 4
      and a = "scanned_address example_generator ''SEED'' None 5" and hs = "[''H1'']"
      and as = "[scanned_address example_generator ''SEED'' None 6]"]
  show ?thesis by blast
qed


text \<open>
  C9. A scan started at a negative index sends no request at all and yields nothing; its
  first pull fails with the invalid-argument error. The rejection is the address
  generator's, which the scanner creates before its first request.
\<close>

theorem scanner_rejects_negative_start:
  "start < 0 \<Longrightarrow>
   calls (scan_from ag ad seed start security_level n) = [] \<and>
   results (scan_from ag ad seed start security_level n) = [] \<and>
   (0 < n \<longrightarrow> ending (scan_from ag ad seed start security_level n) = Failed ValueError)"
  by (rule scan_from_rejected) simp


text \<open>C9 at start index -1.\<close>

theorem scanner_rejects_negative_start_witness:
  "(-1 :: int) < 0 \<and>
   calls (scan_from example_generator example_ledger ''SEED'' (-1) None 4) = [] \<and>
   results (scan_from example_generator example_ledger ''SEED'' (-1) None 4) = [] \<and>
   ending (scan_from example_generator example_ledger ''SEED'' (-1) None 4) = Failed ValueError"
proof -
  have h: "(-1 :: int) < 0" by simp
  from scanner_rejects_negative_start [OF h, of example_generator example_ledger "''SEED''" None 4]
  show ?thesis by simp
qed


text \<open>
  C10. The scanner reads only the first element of a \<open>states\<close> list: cutting every
  list after its first element changes nothing of a scan. If every \<open>states\<close> list
  answered for a one-element request has one element, the scanner never fails on the
  access: a scan that fails does so with the exception its last request raised, or,
  for a negative start index or a security level that is not positive, with the
  rejection before any request.
\<close>

theorem scanner_reads_first_state:
  "scan_from ag (first_state_only ad) seed start security_level n =
     scan_from ag ad seed start security_level n \<and>
   ((\<forall>a states. WereAddressesSpentFromCommand ad [a] = Inr states \<longrightarrow> length states = length [a]) \<longrightarrow>
    ending (scan_from ag ad seed start security_level n) = Failed e \<longrightarrow>
      ((start < 0 \<or> effective_security_level ag security_level < 1) \<and> e = ValueError \<and>
       calls (scan_from ag ad seed start security_level n) = []) \<or>
      (calls (scan_from ag ad seed start security_level n) \<noteq> [] \<and>
       raised ad (last (calls (scan_from ag ad seed start security_level n))) = Some e))"
proof (intro conjI impI)
  show "scan_from ag (first_state_only ad) seed start security_level n =
     scan_from ag ad seed start security_level n"
    by (simp add: scan_from_def consume_first_state)
next
  assume par: "\<forall>a states. WereAddressesSpentFromCommand ad [a] = Inr states \<longrightarrow>
      length states = length [a]"
    and fail: "ending (scan_from ag ad seed start security_level n) = Failed e"
  show "((start < 0 \<or> effective_security_level ag security_level < 1) \<and> e = ValueError \<and>
       calls (scan_from ag ad seed start security_level n) = []) \<or>
      (calls (scan_from ag ad seed start security_level n) \<noteq> [] \<and>
       raised ad (last (calls (scan_from ag ad seed start security_level n))) = Some e)"
  proof (cases "0 \<le> start \<and> 1 \<le> effective_security_level ag security_level")
    case True
    define it where "it = (\<lambda>k. scanned_address ag seed security_level (start + int k))"
    have S: "scan_from ag ad seed start security_level n =
        consume ag ad seed start security_level n (Suspended it 0)"
      unfolding it_def using True by (simp add: scan_from_Suspended)
    have ne: "states \<noteq> []" if "WereAddressesSpentFromCommand ad [a] = Inr states" for a states
      using par that by fastforce
    from ending_Failed [where it = it and k = 0 and ad = ad, OF ne fail [unfolded S]]
    show ?thesis by (simp add: S)
  next
    case False
    then have rejected: "start < 0 \<or> effective_security_level ag security_level < 1" by auto
    from scan_from_rejected [OF rejected, of ad seed n] fail
    show ?thesis using rejected by (cases "0 < n") (auto simp: scan_from_def)
  qed
qed

text \<open>
  C10 behind the adapter that times out on index 7, started at 5: the address of index 6
  has no transaction, so its \<open>states\<close> list is read (it has one element, and the
  address is yielded); the scan then fails with the adapter's time-out on index 7.
\<close>

theorem scanner_reads_first_state_witness:
  "WereAddressesSpentFrom [scanned_address example_generator ''SEED'' None 6]
     \<in> set (calls (scan_from example_generator late_timeout_ledger ''SEED'' 5 None 4)) \<and>
   WereAddressesSpentFromCommand late_timeout_ledger
     [scanned_address example_generator ''SEED'' None 6] = Inr [True] \<and>
   map (key_index \<circ> fst)
     (results (scan_from example_generator late_timeout_ledger ''SEED'' 5 None 4)) = [5, 6] \<and>
   ending (scan_from example_generator late_timeout_ledger ''SEED'' 5 None 4) =
     Failed (AdapterError ''timeout'') \<and>
   raised late_timeout_ledger
     (last (calls (scan_from example_generator late_timeout_ledger ''SEED'' 5 None 4))) =
     Some (AdapterError ''timeout'')"
proof -
  have par: "\<forall>a states. WereAddressesSpentFromCommand late_timeout_ledger [a] = Inr states \<longrightarrow>
      length states = length [a]"
    by (auto simp: ex_defs)
  have read: "WereAddressesSpentFrom [scanned_address example_generator ''SEED'' None 6]
     \<in> set (calls (scan_from example_generator late_timeout_ledger ''SEED'' 5 None 4))"
    by (simp add: ex_defs scan_defs numeral_eq_Suc Let_def)
  have states: "WereAddressesSpentFromCommand late_timeout_ledger
     [scanned_address example_generator ''SEED'' None 6] = Inr [True]"
    by (simp add: ex_defs scan_defs)
  have yielded: "map (key_index \<circ> fst)
     (results (scan_from example_generator late_timeout_ledger ''SEED'' 5 None 4)) = [5, 6]"
    by (simp add: ex_defs scan_defs numeral_eq_Suc Let_def)
  have fail: "ending (scan_from example_generator late_timeout_ledger ''SEED'' 5 None 4) =
     Failed (AdapterError ''timeout'')"
    by (simp add: ex_defs scan_defs numeral_eq_Suc Let_def)
  have valid: "\<not> ((5::int) < 0 \<or> effective_security_level example_generator None < 1)"
    by (simp add: effective_security_level_def example_generator_def)
  note inst = scanner_reads_first_state [where ag = example_generator and ad = late_timeout_ledger
      and seed = "''SEED''" and start = 5 and security_level = None and n = 4
      and e = "AdapterError ''timeout''"]
  from mp [OF mp [OF conjunct2 [OF inst] par] fail] valid
  have "raised late_timeout_ledger
     (last (calls (scan_from example_generator late_timeout_ledger ''SEED'' 5 None 4))) =
     Some (AdapterError ''timeout'')"
    by blast
  with read states yielded fail show ?thesis by (intro conjI)
qed

section \<open>Facts about the resolver\<close>

lemma sort_into_tail_and_non_tail_eq:
  "sort_into_tail_and_non_tail txns (T, N) =
     (T \<union> hash ` {t \<in> set txns. is_tail t}, N \<union> bundle_hash ` {t \<in> set txns. \<not> is_tail t})"
  by (induction txns arbitrary: T N) auto

lemma add_found_tails_append:
  "add_found_tails found (all_transactions, T) =
     (all_transactions @ fst (add_found_tails found ([], T)), snd (add_found_tails found ([], T)))"
proof (induction found arbitrary: all_transactions T)
  case Nil show ?case by simp
next
  case (Cons txn found)
  show ?case
  proof (cases "is_tail txn \<and> hash txn \<notin> T")
    case True
    then show ?thesis
      using Cons.IH [of "all_transactions @ [txn]" "insert (hash txn) T"]
        Cons.IH [of "[txn]" "insert (hash txn) T"]
      by simp
  next
    case False
    then show ?thesis using Cons.IH [of all_transactions T] by auto
  qed
qed

lemma add_found_tails_new:
  "add_found_tails found ([], T) = (new, T') \<Longrightarrow>
   T' = T \<union> hash ` set new \<and> distinct (map hash new) \<and> hash ` set new \<inter> T = {} \<and>
   (\<forall>t \<in> set new. is_tail t) \<and> set new \<subseteq> set found"
proof (induction found arbitrary: T new T')
  case Nil then show ?case by simp
next
  case (Cons txn found)
  show ?case
  proof (cases "is_tail txn \<and> hash txn \<notin> T")
    case True
    obtain new0 T0 where r: "add_found_tails found ([], insert (hash txn) T) = (new0, T0)"
      by (cases "add_found_tails found ([], insert (hash txn) T)")
    from Cons.prems True have "add_found_tails found ([txn], insert (hash txn) T) = (new, T')"
      by simp
    then have new: "new = txn # new0" and T': "T' = T0"
      using add_found_tails_append [of found "[txn]" "insert (hash txn) T"] r by simp_all
    from Cons.IH [OF r] True show ?thesis unfolding new T' by auto
  next
    case False
    with Cons.prems have "add_found_tails found ([], T) = (new, T')" by auto
    from Cons.IH [OF this] show ?thesis by auto
  qed
qed

lemma snd_io_bind_Inr:
  "snd (io_bind m f) = Inr y \<longleftrightarrow> (\<exists>x. snd m = Inr x \<and> snd (f x) = Inr y)"
  by (cases m) (auto simp: io_bind_def split: sum.splits prod.splits)

lemma fst_io_bind:
  "fst (io_bind m f) = (case snd m of Inl e \<Rightarrow> fst m | Inr x \<Rightarrow> fst m @ fst (f x))"
  by (cases m) (auto simp: io_bind_def split: sum.splits prod.splits)

lemma snd_io_bind:
  "snd (io_bind m f) = (case snd m of Inl e \<Rightarrow> Inl e | Inr x \<Rightarrow> snd (f x))"
  by (cases m) (auto simp: io_bind_def split: sum.splits prod.splits)

lemma propagates_return: "propagates ad (io_return x)"
  by (simp add: propagates_def io_return_def)

lemma propagates_await:
  "raised ad c = failure_of response \<Longrightarrow> propagates ad (await c response)"
  by (auto simp: propagates_def await_def failure_of_def split: sum.splits)

lemma propagates_bind:
  assumes m: "propagates ad m" and f: "\<And>x. propagates ad (f x)"
  shows "propagates ad (io_bind m f)"
proof (cases "snd m")
  case (Inl e)
  then have "fst (io_bind m f) = fst m" "snd (io_bind m f) = Inl e"
    by (simp_all add: fst_io_bind snd_io_bind)
  with m Inl show ?thesis by (simp add: propagates_def)
next
  case (Inr x)
  then have ok: "\<forall>c \<in> set (fst m). raised ad c = None"
    using m by (simp add: propagates_def)
  have fst: "fst (io_bind m f) = fst m @ fst (f x)" and snd: "snd (io_bind m f) = snd (f x)"
    using Inr by (simp_all add: fst_io_bind snd_io_bind)
  have fx: "propagates ad (f x)" by (rule f)
  show ?thesis
  proof (cases "fst (f x) = []")
    case True
    with fx ok show ?thesis
      unfolding propagates_def fst snd
      by (auto dest: in_set_butlastD split: sum.splits) (metis last_in_set option.distinct(1))
  next
    case False
    with fx ok show ?thesis
      unfolding propagates_def fst snd
      by (auto simp: butlast_append split: sum.splits)
  qed
qed

lemma propagates_find_tail_transactions: "propagates ad (find_tail_transactions ad all_transactions)"
  unfolding find_tail_transactions_def Let_def
  by (auto intro!: propagates_bind propagates_return propagates_await split: prod.splits)

lemma propagates_attach_inclusion_states:
  "propagates ad (attach_inclusion_states ad inc tails T)"
  unfolding attach_inclusion_states_def
  by (auto intro!: propagates_bind propagates_return propagates_await)

lemma propagates_find_the_bundles: "propagates ad (find_the_bundles ad inc tails)"
  unfolding find_the_bundles_def
  by (auto intro!: propagates_bind propagates_return propagates_await)

lemma propagates_get_bundles_from_transaction_hashes:
  "propagates ad (get_bundles_from_transaction_hashes ad hs inc)"
  unfolding get_bundles_from_transaction_hashes_def
  by (auto intro!: propagates_bind propagates_return propagates_await
        propagates_find_tail_transactions propagates_attach_inclusion_states
        propagates_find_the_bundles split: prod.splits)

lemma find_tail_transactions_eq:
  "find_tail_transactions ad all0 =
     (let T0 = hash ` {t \<in> set all0. is_tail t};
          N = bundle_hash ` {t \<in> set all0. \<not> is_tail t}
      in if N = {} then ([], Inr (filter (\<lambda>t. hash t \<in> T0) all0, T0))
         else case FindTransactionObjectsCommand ad N of
                Inl e \<Rightarrow> ([FindTransactionObjects N], Inl e)
              | Inr found \<Rightarrow>
                  ([FindTransactionObjects N],
                   Inr (filter (\<lambda>t. hash t \<in> snd (add_found_tails found ([], T0)))
                          (all0 @ fst (add_found_tails found ([], T0))),
                        snd (add_found_tails found ([], T0)))))"
  unfolding find_tail_transactions_def sort_into_tail_and_non_tail_eq Let_def
  by (simp add: io_bind_def io_return_def await_def add_found_tails_append [of _ all0]
        split: sum.splits)

lemma find_tail_transactions_hashes:
  assumes "snd (find_tail_transactions ad all0) = Inr (tails, T)"
  shows "\<forall>t \<in> set tails. hash t \<in> T"
  using assms unfolding find_tail_transactions_eq Let_def
  by (auto split: if_splits sum.splits)

lemma find_tail_transactions_calls:
  "GetLatestInclusion T \<notin> set (fst (find_tail_transactions ad all0))"
  "GetBundles ths \<notin> set (fst (find_tail_transactions ad all0))"
  unfolding find_tail_transactions_eq Let_def
  by (auto split: if_splits sum.splits)

lemma attach_inclusion_states_Inr:
  assumes "snd (attach_inclusion_states ad inc tails T) = Inr tails'"
  shows "if inc
         then \<exists>states. GetLatestInclusionCommand ad T = Inr states \<and>
                tails' = map (\<lambda>txn. txn\<lparr>is_confirmed := states (hash txn)\<rparr>) tails \<and>
                fst (attach_inclusion_states ad inc tails T) = [GetLatestInclusion T]
         else tails' = tails \<and> fst (attach_inclusion_states ad inc tails T) = []"
  using assms unfolding attach_inclusion_states_def
  by (auto simp: io_bind_def io_return_def await_def split: sum.splits)

lemma find_the_bundles_Inr:
  assumes "snd (find_the_bundles ad inc tails) = Inr bundles"
  shows "\<exists>bs. GetBundlesCommand ad (map hash tails) = Inr bs \<and>
           bundles = sort_key (\<lambda>bundle. timestamp (tail_transaction bundle))
                       (if inc then copy_is_confirmed bs tails else bs) \<and>
           fst (find_the_bundles ad inc tails) = [GetBundles (map hash tails)]"
  using assms unfolding find_the_bundles_def
  by (auto simp: io_bind_def io_return_def await_def split: sum.splits)

lemma resolver_Inr:
  assumes "snd (get_bundles_from_transaction_hashes ad hs inc) = Inr bundles" and "hs \<noteq> []"
  shows "\<exists>trytes tails T tails'.
     GetTrytesCommand ad hs = Inr trytes \<and>
     snd (find_tail_transactions ad (map (from_tryte_string ad) trytes)) = Inr (tails, T) \<and>
     snd (attach_inclusion_states ad inc tails T) = Inr tails' \<and>
     snd (find_the_bundles ad inc tails') = Inr bundles \<and>
     fst (get_bundles_from_transaction_hashes ad hs inc) =
       GetTrytes hs # fst (find_tail_transactions ad (map (from_tryte_string ad) trytes)) @
       fst (attach_inclusion_states ad inc tails T) @ fst (find_the_bundles ad inc tails')"
proof -
  from assms obtain trytes where 1: "GetTrytesCommand ad hs = Inr trytes"
    and 2: "snd (io_bind (find_tail_transactions ad (map (from_tryte_string ad) trytes))
          (\<lambda>(tail_transactions, tail_transaction_hashes).
             io_bind (attach_inclusion_states ad inc tail_transactions tail_transaction_hashes)
               (\<lambda>tail_transactions. find_the_bundles ad inc tail_transactions))) = Inr bundles"
    unfolding get_bundles_from_transaction_hashes_def
    by (auto simp: snd_io_bind_Inr await_def)
  from 2 obtain tails T where 3: "snd (find_tail_transactions ad (map (from_tryte_string ad) trytes)) =
      Inr (tails, T)"
    and 4: "snd (io_bind (attach_inclusion_states ad inc tails T)
               (\<lambda>tail_transactions. find_the_bundles ad inc tail_transactions)) = Inr bundles"
    by (auto simp: snd_io_bind_Inr)
  from 4 obtain tails' where 5: "snd (attach_inclusion_states ad inc tails T) = Inr tails'"
    and 6: "snd (find_the_bundles ad inc tails') = Inr bundles"
    by (auto simp: snd_io_bind_Inr)
  have "fst (get_bundles_from_transaction_hashes ad hs inc) =
       GetTrytes hs # fst (find_tail_transactions ad (map (from_tryte_string ad) trytes)) @
       fst (attach_inclusion_states ad inc tails T) @ fst (find_the_bundles ad inc tails')"
    unfolding get_bundles_from_transaction_hashes_def using assms(2) 1 3 5
    by (simp add: fst_io_bind await_def)
  with 1 3 5 6 show ?thesis by blast
qed

lemma copy_is_confirmed_parallel:
  "map (hash \<circ> tail_transaction) bs = map hash ts \<Longrightarrow> b \<in> set (copy_is_confirmed bs ts) \<Longrightarrow>
   \<exists>t \<in> set ts. hash (tail_transaction b) = hash t \<and> bundle_is_confirmed b = is_confirmed t"
  by (induction bs ts rule: copy_is_confirmed.induct) (auto simp: set_is_confirmed_def)


lemma find_tail_transactions_perm:
  assumes "mset all0 = mset all0'"
  shows "fst (find_tail_transactions ad all0) = fst (find_tail_transactions ad all0')"
    and "map_sum id (\<lambda>(tails, T). (mset tails, T)) (snd (find_tail_transactions ad all0)) =
         map_sum id (\<lambda>(tails, T). (mset tails, T)) (snd (find_tail_transactions ad all0'))"
proof -
  from assms have set: "set all0 = set all0'" by (rule mset_eq_setD)
  have filter: "mset (filter P (all0 @ new)) = mset (filter P (all0' @ new))" for P new
    using assms by simp
  show "fst (find_tail_transactions ad all0) = fst (find_tail_transactions ad all0')"
    unfolding find_tail_transactions_eq Let_def set by (simp split: sum.splits)
  show "map_sum id (\<lambda>(tails, T). (mset tails, T)) (snd (find_tail_transactions ad all0)) =
         map_sum id (\<lambda>(tails, T). (mset tails, T)) (snd (find_tail_transactions ad all0'))"
  proof (cases "bundle_hash ` {t \<in> set all0'. \<not> is_tail t} = {}")
    case True
    have "mset (filter P all0) = mset (filter P all0')" for P
      using filter [of P "[]"] by (simp only: append_Nil2)
    with True show ?thesis
      unfolding find_tail_transactions_eq Let_def set
      by (simp only: sum.case snd_conv map_sum.simps prod.case if_True simp_thms)
  next
    case False
    then show ?thesis
      unfolding find_tail_transactions_eq Let_def set
      by (cases "FindTransactionObjectsCommand ad (bundle_hash ` {t \<in> set all0'. \<not> is_tail t})")
        (simp_all only: filter sum.case snd_conv map_sum.simps prod.case if_False simp_thms)
  qed
qed

lemma copy_is_confirmed_map:
  "copy_is_confirmed (map g ts) ts = map (\<lambda>t. set_is_confirmed (g t) (is_confirmed t)) ts"
  by (induction ts) simp_all

lemma sort_key_perm:
  fixes f :: "'a \<Rightarrow> int"
  assumes "mset xs = mset ys" and "distinct (map f xs)"
  shows "sort_key f xs = sort_key f ys"
proof -
  have "mset (map f (sort_key f xs)) = mset (map f (sort_key f ys))"
    using assms(1) by simp
  moreover have "sorted (map f (sort_key f xs))" "sorted (map f (sort_key f ys))"
    by simp_all
  ultimately have "sort (map f (sort_key f ys)) = map f (sort_key f xs)"
    "sort (map f (sort_key f ys)) = map f (sort_key f ys)"
    by (auto intro: properties_for_sort)
  then have eq: "map f (sort_key f xs) = map f (sort_key f ys)" by simp
  from assms(2) have "inj_on f (set xs)" by (simp add: distinct_map)
  moreover have "set ys = set xs" using assms(1) by (metis mset_eq_setD)
  ultimately have "inj_on f (set (sort_key f xs) \<union> set (sort_key f ys))" by simp
  with eq show ?thesis by (simp add: inj_on_map_eq_map)
qed

lemma find_the_bundles_sorted:
  "snd (find_the_bundles ad inc tails) = Inr bundles \<Longrightarrow>
   sorted (map (timestamp \<circ> tail_transaction) bundles)"
  using find_the_bundles_Inr [of ad inc tails bundles]
  by (auto simp: comp_def)

lemma distinct_map_sort_key: "distinct (map f (sort_key g xs)) = distinct (map f xs)"
  by (rule mset_eq_imp_distinct_iff) simp


lemma find_tail_transactions_no_non_tails:
  "bundle_hash ` {t \<in> set all0. \<not> is_tail t} = {} \<Longrightarrow>
   find_tail_transactions ad all0 =
     ([], Inr (filter (\<lambda>t. hash t \<in> hash ` {t \<in> set all0. is_tail t}) all0,
               hash ` {t \<in> set all0. is_tail t}))"
  by (simp add: find_tail_transactions_eq Let_def)

lemma find_tail_transactions_failed:
  "bundle_hash ` {t \<in> set all0. \<not> is_tail t} \<noteq> {} \<Longrightarrow>
   FindTransactionObjectsCommand ad (bundle_hash ` {t \<in> set all0. \<not> is_tail t}) = Inl e \<Longrightarrow>
   find_tail_transactions ad all0 =
     ([FindTransactionObjects (bundle_hash ` {t \<in> set all0. \<not> is_tail t})], Inl e)"
  by (simp add: find_tail_transactions_eq Let_def)

lemma find_tail_transactions_found:
  "bundle_hash ` {t \<in> set all0. \<not> is_tail t} \<noteq> {} \<Longrightarrow>
   FindTransactionObjectsCommand ad (bundle_hash ` {t \<in> set all0. \<not> is_tail t}) = Inr found \<Longrightarrow>
   add_found_tails found ([], hash ` {t \<in> set all0. is_tail t}) = (new, T1) \<Longrightarrow>
   find_tail_transactions ad all0 =
     ([FindTransactionObjects (bundle_hash ` {t \<in> set all0. \<not> is_tail t})],
      Inr (filter (\<lambda>t. hash t \<in> T1) (all0 @ new), T1))"
  by (simp add: find_tail_transactions_eq Let_def)

lemma find_tail_transactions_distinct:
  assumes ok: "snd (find_tail_transactions ad all0) = Inr (tails, T)"
    and once: "distinct (map hash (filter is_tail all0))"
    and kind: "same_hash_same_kind all0 all0"
    and found_kind: "\<forall>N found.
      FindTransactionObjects N \<in> set (fst (find_tail_transactions ad all0)) \<and>
      FindTransactionObjectsCommand ad N = Inr found \<longrightarrow> same_hash_same_kind found all0"
  shows "distinct (map hash tails) \<and> hash ` {t \<in> set all0. is_tail t} \<subseteq> hash ` set tails"
proof -
  let ?T0 = "hash ` {t \<in> set all0. is_tail t}"
  let ?N = "bundle_hash ` {t \<in> set all0. \<not> is_tail t}"
  have T0: "filter (\<lambda>t. hash t \<in> ?T0) all0 = filter is_tail all0"
  proof (rule filter_cong [OF refl])
    fix t assume t: "t \<in> set all0"
    show "(hash t \<in> ?T0) = is_tail t"
    proof
      assume "hash t \<in> ?T0"
      then obtain t' where "t' \<in> set all0" "is_tail t'" "hash t = hash t'" by auto
      with kind t show "is_tail t" unfolding same_hash_same_kind_def by metis
    next
      assume "is_tail t"
      with t show "hash t \<in> ?T0" by blast
    qed
  qed
  have T0_eq: "?T0 = hash ` set (filter is_tail all0)" by auto
  show ?thesis
  proof (cases "?N = {}")
    case True
    from ok [unfolded find_tail_transactions_no_non_tails [OF True] snd_conv sum.inject prod.inject]
    have "filter (\<lambda>t. hash t \<in> ?T0) all0 = tails"
      by (rule conjunct1)
    then have "tails = filter (\<lambda>t. hash t \<in> ?T0) all0" by (rule sym)
    then have tails: "tails = filter is_tail all0" by (simp only: T0)
    show ?thesis unfolding tails T0_eq using once by simp
  next
    case False
    show ?thesis
    proof (cases "FindTransactionObjectsCommand ad ?N")
      case (Inl e)
      with ok show ?thesis unfolding find_tail_transactions_failed [OF False Inl] by simp
    next
      case (Inr found)
      obtain new T1 where aft: "add_found_tails found ([], ?T0) = (new, T1)"
        by (cases "add_found_tails found ([], ?T0)")
      from ok [unfolded find_tail_transactions_found [OF False Inr aft] snd_conv sum.inject prod.inject]
      have "filter (\<lambda>t. hash t \<in> T1) (all0 @ new) = tails"
        by (rule conjunct1)
      then have tails: "tails = filter (\<lambda>t. hash t \<in> T1) (all0 @ new)" by (rule sym)
      have calls: "fst (find_tail_transactions ad all0) = [FindTransactionObjects ?N]"
        unfolding find_tail_transactions_found [OF False Inr aft] by simp
      from add_found_tails_new [OF aft] have T1: "T1 = ?T0 \<union> hash ` set new"
        and dnew: "distinct (map hash new)" and disj: "hash ` set new \<inter> ?T0 = {}"
        and tnew: "\<forall>t \<in> set new. is_tail t" and sub: "set new \<subseteq> set found"
        by blast+
      have "FindTransactionObjects ?N \<in> set (fst (find_tail_transactions ad all0))"
        unfolding calls by simp
      with found_kind Inr have fk: "same_hash_same_kind found all0" by blast
      have old: "filter (\<lambda>t. hash t \<in> T1) all0 = filter is_tail all0"
      proof (rule filter_cong [OF refl])
        fix t assume t: "t \<in> set all0"
        show "(hash t \<in> T1) = is_tail t"
        proof
          assume "hash t \<in> T1"
          then consider "hash t \<in> ?T0" | t' where "t' \<in> set new" "hash t = hash t'"
            unfolding T1 by auto
          then show "is_tail t"
          proof cases
            case 1
            then obtain t' where "t' \<in> set all0" "is_tail t'" "hash t = hash t'" by auto
            with kind t show ?thesis unfolding same_hash_same_kind_def by metis
          next
            case 2
            with sub tnew have "t' \<in> set found" "is_tail t'" by auto
            with fk t 2(2) show ?thesis unfolding same_hash_same_kind_def by metis
          qed
        next
          assume "is_tail t"
          with t have "hash t \<in> ?T0" by blast
          then show "hash t \<in> T1" unfolding T1 by blast
        qed
      qed
      have "hash t \<in> T1" if "t \<in> set new" for t using that unfolding T1 by blast
      then have new: "filter (\<lambda>t. hash t \<in> T1) new = new" by (simp add: filter_id_conv)
      have tails': "tails = filter is_tail all0 @ new"
        unfolding tails by (simp only: filter_append old new)
      have "set (map hash (filter is_tail all0)) \<inter> set (map hash new) = {}"
        using disj unfolding T0_eq by (simp only: set_map Int_commute)
      with once dnew have "distinct (map hash tails)"
        unfolding tails' by (simp only: map_append distinct_append simp_thms)
      moreover have "?T0 \<subseteq> hash ` set tails"
        unfolding T0_eq tails' by auto
      ultimately show ?thesis by (rule conjI)
    qed
  qed
qed

lemma resolver_GetBundles:
  assumes "GetBundles ths \<in> set (fst (get_bundles_from_transaction_hashes ad hs inc))"
  shows "\<exists>trytes tails T tails'.
     GetTrytesCommand ad hs = Inr trytes \<and>
     snd (find_tail_transactions ad (map (from_tryte_string ad) trytes)) = Inr (tails, T) \<and>
     snd (attach_inclusion_states ad inc tails T) = Inr tails' \<and>
     ths = map hash tails \<and>
     set (fst (find_tail_transactions ad (map (from_tryte_string ad) trytes)))
       \<subseteq> set (fst (get_bundles_from_transaction_hashes ad hs inc))"
proof -
  from assms have ne: "hs \<noteq> []"
    by (auto simp: get_bundles_from_transaction_hashes_def io_return_def)
  obtain trytes where gt: "GetTrytesCommand ad hs = Inr trytes"
    using assms ne
    by (cases "GetTrytesCommand ad hs")
      (auto simp: get_bundles_from_transaction_hashes_def fst_io_bind await_def)
  let ?ft = "find_tail_transactions ad (map (from_tryte_string ad) trytes)"
  have calls1: "fst (get_bundles_from_transaction_hashes ad hs inc) =
      GetTrytes hs # fst (io_bind ?ft
        (\<lambda>(tail_transactions, tail_transaction_hashes).
           io_bind (attach_inclusion_states ad inc tail_transactions tail_transaction_hashes)
             (\<lambda>tail_transactions. find_the_bundles ad inc tail_transactions)))"
    using ne gt by (simp add: get_bundles_from_transaction_hashes_def fst_io_bind await_def)
  obtain tails T where ft: "snd ?ft = Inr (tails, T)"
    using assms find_tail_transactions_calls(2) [of ths ad "map (from_tryte_string ad) trytes"]
    unfolding calls1 by (cases "snd ?ft") (auto simp: fst_io_bind)
  let ?at = "attach_inclusion_states ad inc tails T"
  have calls2: "fst (get_bundles_from_transaction_hashes ad hs inc) =
      GetTrytes hs # fst ?ft @ fst (io_bind ?at (\<lambda>tail_transactions. find_the_bundles ad inc tail_transactions))"
    unfolding calls1 using ft by (simp add: fst_io_bind)
  have at_calls: "GetBundles ths \<notin> set (fst ?at)"
    by (auto simp: attach_inclusion_states_def fst_io_bind io_return_def await_def
          split: sum.splits)
  obtain tails' where at: "snd ?at = Inr tails'"
    using assms find_tail_transactions_calls(2) [of ths ad "map (from_tryte_string ad) trytes"] at_calls
    unfolding calls2 by (cases "snd ?at") (auto simp: fst_io_bind)
  have hashes: "map hash tails' = map hash tails"
    using attach_inclusion_states_Inr [OF at] by (auto split: if_splits simp: comp_def)
  have fb_calls: "set (fst (find_the_bundles ad inc tails')) \<subseteq> {GetBundles (map hash tails')}"
    by (auto simp: find_the_bundles_def fst_io_bind io_return_def await_def split: sum.splits)
  have "GetBundles ths \<in> set (fst (find_the_bundles ad inc tails'))"
    using assms find_tail_transactions_calls(2) [of ths ad "map (from_tryte_string ad) trytes"] at_calls at
    unfolding calls2 by (auto simp: fst_io_bind)
  with fb_calls hashes have "ths = map hash tails" by auto
  moreover have "set (fst ?ft) \<subseteq> set (fst (get_bundles_from_transaction_hashes ad hs inc))"
    unfolding calls2 by auto
  ultimately show ?thesis using gt ft at by blast
qed

lemma copy_is_confirmed_keys:
  "map (\<lambda>b. (timestamp (tail_transaction b), hash (tail_transaction b))) (copy_is_confirmed bs ts) =
   map (\<lambda>b. (timestamp (tail_transaction b), hash (tail_transaction b))) bs"
  by (induction bs ts rule: copy_is_confirmed.induct) (simp_all add: set_is_confirmed_def)

lemma snd_add_found_tails:
  "snd (add_found_tails found (all_transactions, T)) = T \<union> hash ` {t \<in> set found. is_tail t}"
  by (induction found arbitrary: all_transactions T) auto

lemma find_tail_transactions_spec:
  assumes ok: "snd (find_tail_transactions ad all0) = Inr (tails, T)"
  shows "T = spec_tail_hashes ad all0 \<and> set (map hash tails) = T \<and>
         (\<exists>rest. map hash tails = map hash (filter (\<lambda>t. hash t \<in> T) all0) @ rest)"
proof -
  let ?T0 = "hash ` {t \<in> set all0. is_tail t}"
  let ?N = "bundle_hash ` {t \<in> set all0. \<not> is_tail t}"
  show ?thesis
  proof (cases "?N = {}")
    case True
    from ok [unfolded find_tail_transactions_no_non_tails [OF True] snd_conv sum.inject prod.inject]
    have tails: "filter (\<lambda>t. hash t \<in> ?T0) all0 = tails" and T: "?T0 = T" by blast+
    have spec: "spec_tail_hashes ad all0 = ?T0"
      using True by (auto simp add: spec_tail_hashes_def Let_def)
    have "set (map hash (filter (\<lambda>t. hash t \<in> ?T0) all0)) = ?T0" by auto
    with tails T spec show ?thesis by auto
  next
    case False
    show ?thesis
    proof (cases "FindTransactionObjectsCommand ad ?N")
      case (Inl e)
      with ok show ?thesis unfolding find_tail_transactions_failed [OF False Inl] by simp
    next
      case (Inr found)
      obtain new T1 where aft: "add_found_tails found ([], ?T0) = (new, T1)"
        by (cases "add_found_tails found ([], ?T0)")
      from ok [unfolded find_tail_transactions_found [OF False Inr aft] snd_conv sum.inject prod.inject]
      have tails: "filter (\<lambda>t. hash t \<in> T1) (all0 @ new) = tails" and T: "T1 = T" by blast+
      from add_found_tails_new [OF aft] have T1: "T1 = ?T0 \<union> hash ` set new" by blast
      have T1': "T1 = ?T0 \<union> hash ` {t \<in> set found. is_tail t}"
        using snd_add_found_tails [of found "[]" ?T0] aft by simp
      have spec: "spec_tail_hashes ad all0 = ?T0 \<union> hash ` {t \<in> set found. is_tail t}"
        using False Inr by (auto simp add: spec_tail_hashes_def Let_def)
      have "set (map hash (filter (\<lambda>t. hash t \<in> T1) (all0 @ new))) = T1"
      proof
        show "set (map hash (filter (\<lambda>t. hash t \<in> T1) (all0 @ new))) \<subseteq> T1" by auto
        show "T1 \<subseteq> set (map hash (filter (\<lambda>t. hash t \<in> T1) (all0 @ new)))"
        proof
          fix h assume h: "h \<in> T1"
          then obtain t where "t \<in> set all0 \<union> set new" "hash t = h" unfolding T1 by auto
          with h show "h \<in> set (map hash (filter (\<lambda>t. hash t \<in> T1) (all0 @ new)))" by auto
        qed
      qed
      moreover have "map hash (filter (\<lambda>t. hash t \<in> T1) (all0 @ new)) =
          map hash (filter (\<lambda>t. hash t \<in> T1) all0) @ map hash (filter (\<lambda>t. hash t \<in> T1) new)"
        by simp
      ultimately show ?thesis using tails T T1' spec by blast
    qed
  qed
qed

lemma attach_inclusion_states_calls:
  "GetBundles ths \<notin> set (fst (attach_inclusion_states ad inc tails T))"
  by (auto simp: attach_inclusion_states_def fst_io_bind io_return_def await_def split: sum.splits)

lemma attach_inclusion_states_hashes:
  "snd (attach_inclusion_states ad inc tails T) = Inr tails' \<Longrightarrow> map hash tails' = map hash tails"
  using attach_inclusion_states_Inr [of ad inc tails T tails']
  by (auto split: if_splits simp: comp_def)

text \<open>The request of a successful call, and its result in terms of the response.\<close>

lemma resolver_result:
  assumes ok: "snd (get_bundles_from_transaction_hashes ad hs inc) = Inr bundles"
    and sent: "GetBundles ths \<in> set (fst (get_bundles_from_transaction_hashes ad hs inc))"
  shows "\<exists>trytes tails T tails' bs.
     GetTrytesCommand ad hs = Inr trytes \<and>
     snd (find_tail_transactions ad (map (from_tryte_string ad) trytes)) = Inr (tails, T) \<and>
     snd (attach_inclusion_states ad inc tails T) = Inr tails' \<and>
     ths = map hash tails \<and> map hash tails' = map hash tails \<and>
     GetBundlesCommand ad ths = Inr bs \<and>
     bundles = sort_key (\<lambda>bundle. timestamp (tail_transaction bundle))
                 (if inc then copy_is_confirmed bs tails' else bs)"
proof -
  from sent have ne: "hs \<noteq> []"
    by (auto simp: get_bundles_from_transaction_hashes_def io_return_def)
  from resolver_Inr [OF ok ne] obtain trytes tails T tails' where
    gt: "GetTrytesCommand ad hs = Inr trytes"
    and ft: "snd (find_tail_transactions ad (map (from_tryte_string ad) trytes)) = Inr (tails, T)"
    and at: "snd (attach_inclusion_states ad inc tails T) = Inr tails'"
    and fb: "snd (find_the_bundles ad inc tails') = Inr bundles"
    and calls: "fst (get_bundles_from_transaction_hashes ad hs inc) =
       GetTrytes hs # fst (find_tail_transactions ad (map (from_tryte_string ad) trytes)) @
       fst (attach_inclusion_states ad inc tails T) @ fst (find_the_bundles ad inc tails')"
    by blast
  from find_the_bundles_Inr [OF fb] obtain bs where
    gb: "GetBundlesCommand ad (map hash tails') = Inr bs"
    and bundles: "bundles = sort_key (\<lambda>bundle. timestamp (tail_transaction bundle))
                       (if inc then copy_is_confirmed bs tails' else bs)"
    and fcalls: "fst (find_the_bundles ad inc tails') = [GetBundles (map hash tails')]"
    by blast
  have hashes: "map hash tails' = map hash tails" using at by (rule attach_inclusion_states_hashes)
  from sent have "ths = map hash tails'"
    unfolding calls fcalls
    using find_tail_transactions_calls(2) [of ths ad "map (from_tryte_string ad) trytes"]
      attach_inclusion_states_calls [of ths ad inc tails T]
    by simp
  with gt ft at gb bundles hashes show ?thesis by auto
qed

lemma resolver_snd:
  assumes "hs \<noteq> []" and "GetTrytesCommand ad hs = Inr trytes"
    and "snd (find_tail_transactions ad (map (from_tryte_string ad) trytes)) = Inr (tails, T)"
    and "snd (attach_inclusion_states ad inc tails T) = Inr tails'"
  shows "snd (get_bundles_from_transaction_hashes ad hs inc) = snd (find_the_bundles ad inc tails')"
  using assms unfolding get_bundles_from_transaction_hashes_def
  by (simp add: snd_io_bind await_def)

lemma snd_find_the_bundles:
  "snd (find_the_bundles ad inc tails) =
     (case GetBundlesCommand ad (map hash tails) of
        Inl e \<Rightarrow> Inl e
      | Inr bs \<Rightarrow>
          Inr (sort_key (\<lambda>bundle. timestamp (tail_transaction bundle))
                 (if inc then copy_is_confirmed bs tails else bs)))"
  by (simp add: find_the_bundles_def snd_io_bind await_def io_return_def split: sum.splits)

lemma resolver_sent:
  assumes sent: "GetBundles ths \<in> set (fst (get_bundles_from_transaction_hashes ad hs inc))"
  shows "\<exists>trytes tails T tails'.
     GetTrytesCommand ad hs = Inr trytes \<and>
     snd (find_tail_transactions ad (map (from_tryte_string ad) trytes)) = Inr (tails, T) \<and>
     snd (attach_inclusion_states ad inc tails T) = Inr tails' \<and>
     ths = map hash tails \<and> map hash tails' = map hash tails \<and>
     set (fst (find_tail_transactions ad (map (from_tryte_string ad) trytes)))
       \<subseteq> set (fst (get_bundles_from_transaction_hashes ad hs inc)) \<and>
     snd (get_bundles_from_transaction_hashes ad hs inc) =
       (case GetBundlesCommand ad ths of
          Inl e \<Rightarrow> Inl e
        | Inr bs \<Rightarrow>
            Inr (sort_key (\<lambda>bundle. timestamp (tail_transaction bundle))
                   (if inc then copy_is_confirmed bs tails' else bs)))"
proof -
  from sent have ne: "hs \<noteq> []"
    by (auto simp: get_bundles_from_transaction_hashes_def io_return_def)
  from resolver_GetBundles [OF sent] obtain trytes tails T tails' where
    gt: "GetTrytesCommand ad hs = Inr trytes"
    and ft: "snd (find_tail_transactions ad (map (from_tryte_string ad) trytes)) = Inr (tails, T)"
    and at: "snd (attach_inclusion_states ad inc tails T) = Inr tails'"
    and ths: "ths = map hash tails"
    and sub: "set (fst (find_tail_transactions ad (map (from_tryte_string ad) trytes)))
       \<subseteq> set (fst (get_bundles_from_transaction_hashes ad hs inc))"
    by blast
  have hashes: "map hash tails' = map hash tails" using at by (rule attach_inclusion_states_hashes)
  have "snd (get_bundles_from_transaction_hashes ad hs inc) =
       (case GetBundlesCommand ad ths of
          Inl e \<Rightarrow> Inl e
        | Inr bs \<Rightarrow>
            Inr (sort_key (\<lambda>bundle. timestamp (tail_transaction bundle))
                   (if inc then copy_is_confirmed bs tails' else bs)))"
    unfolding resolver_snd [OF ne gt ft at] snd_find_the_bundles hashes ths by (rule refl)
  with gt ft at ths hashes sub show ?thesis by blast
qed

lemma tail_hashes_copy_sorted:
  "mset (map (hash \<circ> tail_transaction)
      (sort_key (\<lambda>bundle. timestamp (tail_transaction bundle))
         (if inc then copy_is_confirmed bs ts else bs))) =
   mset (map (hash \<circ> tail_transaction) bs)"
proof -
  have "map snd (map (\<lambda>b. (timestamp (tail_transaction b), hash (tail_transaction b)))
            (copy_is_confirmed bs ts)) =
        map snd (map (\<lambda>b. (timestamp (tail_transaction b), hash (tail_transaction b))) bs)"
    by (simp only: copy_is_confirmed_keys)
  then have copy: "map (hash \<circ> tail_transaction) (copy_is_confirmed bs ts) =
      map (hash \<circ> tail_transaction) bs"
    by (simp add: comp_def)
  have sorted: "mset (map (hash \<circ> tail_transaction)
        (sort_key (\<lambda>bundle. timestamp (tail_transaction bundle)) xs)) =
      mset (map (hash \<circ> tail_transaction) xs)" for xs
    by simp
  show ?thesis by (cases inc) (simp_all only: if_True if_False sorted copy)
qed


lemma resolver_failed_find:
  assumes "hs \<noteq> []" and "GetTrytesCommand ad hs = Inr trytes"
    and "snd (find_tail_transactions ad (map (from_tryte_string ad) trytes)) = Inl e"
  shows "snd (get_bundles_from_transaction_hashes ad hs inc) = Inl e"
  using assms unfolding get_bundles_from_transaction_hashes_def
  by (simp add: snd_io_bind await_def)

lemma resolver_failed_attach:
  assumes "hs \<noteq> []" and "GetTrytesCommand ad hs = Inr trytes"
    and "snd (find_tail_transactions ad (map (from_tryte_string ad) trytes)) = Inr (tails, T)"
    and "snd (attach_inclusion_states ad inc tails T) = Inl e"
  shows "snd (get_bundles_from_transaction_hashes ad hs inc) = Inl e"
  using assms unfolding get_bundles_from_transaction_hashes_def
  by (simp add: snd_io_bind await_def)

lemma resolver_sends:
  assumes "hs \<noteq> []" and "GetTrytesCommand ad hs = Inr trytes"
    and "snd (find_tail_transactions ad (map (from_tryte_string ad) trytes)) = Inr (tails, T)"
    and "snd (attach_inclusion_states ad inc tails T) = Inr tails'"
  shows "GetBundles (map hash tails') \<in> set (fst (get_bundles_from_transaction_hashes ad hs inc))"
  using assms unfolding get_bundles_from_transaction_hashes_def
  by (simp add: fst_io_bind await_def find_the_bundles_def split: sum.splits)

lemma resolver_elementwise:
  assumes ne: "hs \<noteq> []" and gt: "GetTrytesCommand ad hs = Inr trytes"
    and ft: "snd (find_tail_transactions ad (map (from_tryte_string ad) trytes)) = Inr (tails, T)"
    and at: "snd (attach_inclusion_states ad inc tails T) = Inr tails'"
    and ans: "GetBundlesCommand ad (map hash tails') = Inr (map bundle_of (map hash tails'))"
  shows "snd (get_bundles_from_transaction_hashes ad hs inc) =
    Inr (sort_key (\<lambda>bundle. timestamp (tail_transaction bundle))
      (map (\<lambda>t. if inc then set_is_confirmed (bundle_of (hash t)) (is_confirmed t)
                else bundle_of (hash t)) tails'))"
proof -
  have "copy_is_confirmed (map bundle_of (map hash tails')) tails' =
      map (\<lambda>t. set_is_confirmed (bundle_of (hash t)) (is_confirmed t)) tails'"
    using copy_is_confirmed_map [of "\<lambda>t. bundle_of (hash t)" tails'] by (simp add: comp_def)
  then show ?thesis
    unfolding resolver_snd [OF ne gt ft at] snd_find_the_bundles ans
    by (cases inc) (simp_all add: comp_def)
qed

lemma timestamp_set_is_confirmed:
  "timestamp (tail_transaction (set_is_confirmed b v)) = timestamp (tail_transaction b)"
  "hash (tail_transaction (set_is_confirmed b v)) = hash (tail_transaction b)"
  by (simp_all add: set_is_confirmed_def)

text \<open>Ties: the stable sort keeps the order of the response.\<close>

lemma resolver_stable:
  assumes sent: "GetBundles ths \<in> set (fst (get_bundles_from_transaction_hashes ad hs inc))"
    and gb: "GetBundlesCommand ad ths = Inr bs"
  shows "\<exists>bundles. snd (get_bundles_from_transaction_hashes ad hs inc) = Inr bundles \<and>
     map (hash \<circ> tail_transaction) (filter (\<lambda>b. timestamp (tail_transaction b) = k) bundles) =
     map (hash \<circ> tail_transaction) (filter (\<lambda>b. timestamp (tail_transaction b) = k) bs)"
proof -
  let ?p = "\<lambda>b. (timestamp (tail_transaction b), hash (tail_transaction b))"
  have proj: "map (hash \<circ> tail_transaction) (filter (\<lambda>b. timestamp (tail_transaction b) = k) xs) =
      map snd (filter (\<lambda>q. fst q = k) (map ?p xs))" for xs
    by (induction xs) simp_all
  from resolver_sent [OF sent] gb obtain tails' where
    R: "snd (get_bundles_from_transaction_hashes ad hs inc) =
        Inr (sort_key (\<lambda>bundle. timestamp (tail_transaction bundle))
               (if inc then copy_is_confirmed bs tails' else bs))"
    by auto
  let ?pre = "if inc then copy_is_confirmed bs tails' else bs"
  have pre: "map ?p ?pre = map ?p bs" by (simp add: copy_is_confirmed_keys)
  have "filter (\<lambda>b. timestamp (tail_transaction b) = k)
          (sort_key (\<lambda>bundle. timestamp (tail_transaction bundle)) ?pre) =
        filter (\<lambda>b. timestamp (tail_transaction b) = k) ?pre"
    by (rule sort_key_stable)
  then have "map (hash \<circ> tail_transaction)
        (filter (\<lambda>b. timestamp (tail_transaction b) = k)
          (sort_key (\<lambda>bundle. timestamp (tail_transaction bundle)) ?pre)) =
      map (hash \<circ> tail_transaction) (filter (\<lambda>b. timestamp (tail_transaction b) = k) bs)"
    by (simp only: proj pre)
  with R show ?thesis by blast
qed

text \<open>The request: the final tail-hash set, the decoded transactions first.\<close>

lemma resolver_request:
  assumes gt: "GetTrytesCommand ad hs = Inr trytes"
    and sent: "GetBundles ths \<in> set (fst (get_bundles_from_transaction_hashes ad hs inc))"
  shows "set ths = spec_tail_hashes ad (map (from_tryte_string ad) trytes) \<and>
    (\<exists>rest. ths = map hash (filter (\<lambda>t. hash t \<in> set ths) (map (from_tryte_string ad) trytes)) @ rest)"
proof -
  from resolver_sent [OF sent] gt obtain tails T where
    ft: "snd (find_tail_transactions ad (map (from_tryte_string ad) trytes)) = Inr (tails, T)"
    and ths: "ths = map hash tails"
    by auto
  from find_tail_transactions_spec [OF ft] show ?thesis unfolding ths by auto
qed

text \<open>Two bundles.\<close>

lemma resolver_two_bundles:
  assumes gt: "GetTrytesCommand ad hs = Inr trytes"
    and spec: "spec_tail_hashes ad (map (from_tryte_string ad) trytes) = {h1, h2}"
    and sent: "GetBundles ths \<in> set (fst (get_bundles_from_transaction_hashes ad hs inc))"
    and dist: "distinct ths"
    and ans: "GetBundlesCommand ad ths = Inr (map bundle_of ths)"
    and states: "inc \<longrightarrow> GetLatestInclusionCommand ad {h1, h2} = Inr states"
    and less: "timestamp (tail_transaction (bundle_of h1)) < timestamp (tail_transaction (bundle_of h2))"
  shows "snd (get_bundles_from_transaction_hashes ad hs inc) =
    Inr [if inc then set_is_confirmed (bundle_of h1) (states h1) else bundle_of h1,
         if inc then set_is_confirmed (bundle_of h2) (states h2) else bundle_of h2]"
proof -
  let ?key = "\<lambda>bundle. timestamp (tail_transaction bundle)"
  let ?g = "\<lambda>h. if inc then set_is_confirmed (bundle_of h) (states h) else bundle_of h"
  from sent have ne: "hs \<noteq> []"
    by (auto simp: get_bundles_from_transaction_hashes_def io_return_def)
  from resolver_sent [OF sent] gt obtain tails T tails' where
    ft: "snd (find_tail_transactions ad (map (from_tryte_string ad) trytes)) = Inr (tails, T)"
    and at: "snd (attach_inclusion_states ad inc tails T) = Inr tails'"
    and ths: "ths = map hash tails" and hashes: "map hash tails' = map hash tails"
    by auto
  from find_tail_transactions_spec [OF ft] spec have T: "T = {h1, h2}" and set: "set ths = {h1, h2}"
    unfolding ths by auto
  have flags: "inc \<longrightarrow> (\<forall>t \<in> set tails'. is_confirmed t = states (hash t))"
    using attach_inclusion_states_Inr [OF at] states unfolding T by (auto split: if_splits)
  have ans': "GetBundlesCommand ad (map hash tails') = Inr (map bundle_of (map hash tails'))"
    using ans unfolding ths hashes .
  have "map (\<lambda>t. if inc then set_is_confirmed (bundle_of (hash t)) (is_confirmed t)
                else bundle_of (hash t)) tails' = map (\<lambda>t. ?g (hash t)) tails'"
    using flags by (intro map_cong refl) auto
  also have "\<dots> = map ?g ths" unfolding ths hashes [symmetric] by (simp add: comp_def)
  finally have R: "snd (get_bundles_from_transaction_hashes ad hs inc) =
      Inr (sort_key ?key (map ?g ths))"
    using resolver_elementwise [OF ne gt ft at ans'] by simp
  have key: "?key (?g h) = ?key (bundle_of h)" for h
    by (simp add: timestamp_set_is_confirmed)
  from less have neq: "h1 \<noteq> h2" by auto
  with dist set have m: "mset [h1, h2] = mset ths"
    using set_eq_iff_mset_eq_distinct [of "[h1, h2]" ths] by simp
  have "sort_key ?key (map ?g [h1, h2]) = sort_key ?key (map ?g ths)"
  proof (rule sort_key_perm)
    show "mset (map ?g [h1, h2]) = mset (map ?g ths)" using m by (metis mset_map)
    show "distinct (map ?key (map ?g [h1, h2]))" using less by (simp add: key)
  qed
  moreover have "sort_key ?key (map ?g [h1, h2]) = [?g h1, ?g h2]"
    using less by (simp add: key)
  ultimately show ?thesis using R by simp
qed

lemma resolver_permuted:
  assumes H1: "GetTrytesCommand ad hs = Inr (map fetch hs)"
    and H1': "GetTrytesCommand ad hs' = Inr (map fetch hs')"
    and H2: "\<forall>ths. GetBundles ths \<in> set (fst (get_bundles_from_transaction_hashes ad hs inc)) \<or>
                 GetBundles ths \<in> set (fst (get_bundles_from_transaction_hashes ad hs' inc)) \<longrightarrow>
              GetBundlesCommand ad ths = Inr (map bundle_of ths)"
    and perm: "mset hs = mset hs'"
  shows "map_sum id mset (snd (get_bundles_from_transaction_hashes ad hs inc)) =
         map_sum id mset (snd (get_bundles_from_transaction_hashes ad hs' inc)) \<and>
    ((\<forall>bs. snd (get_bundles_from_transaction_hashes ad hs inc) = Inr bs \<longrightarrow>
          distinct (map (timestamp \<circ> tail_transaction) bs)) \<longrightarrow>
     snd (get_bundles_from_transaction_hashes ad hs inc) =
     snd (get_bundles_from_transaction_hashes ad hs' inc))"
proof (cases "hs = []")
  case True
  with perm have "hs' = []" by simp
  with True show ?thesis by simp
next
  case ne: False
  with perm have ne': "hs' \<noteq> []" by auto
  let ?key = "\<lambda>bundle. timestamp (tail_transaction bundle)"
  let ?G = "\<lambda>t. if inc then set_is_confirmed (bundle_of (hash t)) (is_confirmed t)
                else bundle_of (hash t)"
  let ?R = "snd (get_bundles_from_transaction_hashes ad hs inc)"
  let ?R' = "snd (get_bundles_from_transaction_hashes ad hs' inc)"
  let ?all0 = "map (from_tryte_string ad) (map fetch hs)"
  let ?all0' = "map (from_tryte_string ad) (map fetch hs')"
  have "mset ?all0 = mset ?all0'" using perm by simp
  note ftp = find_tail_transactions_perm(2) [OF this, of ad]
  show ?thesis
  proof (cases "snd (find_tail_transactions ad ?all0)")
    case (Inl e)
    with ftp have "snd (find_tail_transactions ad ?all0') = Inl e"
      by (cases "snd (find_tail_transactions ad ?all0')") auto
    with Inl resolver_failed_find [OF ne H1] resolver_failed_find [OF ne' H1']
    show ?thesis by simp
  next
    case (Inr p)
    obtain tails T where p: "p = (tails, T)" by (cases p)
    from ftp Inr p obtain tails2 where
      ft': "snd (find_tail_transactions ad ?all0') = Inr (tails2, T)"
      and m: "mset tails = mset tails2"
      by (cases "snd (find_tail_transactions ad ?all0')") auto
    have ft: "snd (find_tail_transactions ad ?all0) = Inr (tails, T)" using Inr p by simp
    show ?thesis
    proof (cases "snd (attach_inclusion_states ad inc tails T)")
      case (Inl e)
      then have "snd (attach_inclusion_states ad inc tails2 T) = Inl e"
        by (auto simp: attach_inclusion_states_def snd_io_bind await_def io_return_def
              split: if_splits sum.splits)
      with Inl resolver_failed_attach [OF ne H1 ft] resolver_failed_attach [OF ne' H1' ft']
      show ?thesis by simp
    next
      case at: (Inr tails')
      obtain f where f: "tails' = map f tails"
        and at': "snd (attach_inclusion_states ad inc tails2 T) = Inr (map f tails2)"
      proof (cases inc)
        case True
        from attach_inclusion_states_Inr [OF at] True obtain states where
          "GetLatestInclusionCommand ad T = Inr states"
          "tails' = map (\<lambda>txn. txn\<lparr>is_confirmed := states (hash txn)\<rparr>) tails"
          by auto
        then show ?thesis
          using True
          by (intro that [of "\<lambda>txn. txn\<lparr>is_confirmed := states (hash txn)\<rparr>"])
            (simp_all add: attach_inclusion_states_def snd_io_bind await_def io_return_def)
      next
        case False
        with at show ?thesis
          by (intro that [of "\<lambda>txn. txn"])
            (simp_all add: attach_inclusion_states_def io_return_def)
      qed
      have m': "mset (map ?G tails') = mset (map ?G (map f tails2))"
        unfolding f using m by simp
      have sent: "GetBundles (map hash tails') \<in> set (fst (get_bundles_from_transaction_hashes ad hs inc))"
        by (rule resolver_sends [OF ne H1 ft at])
      have sent': "GetBundles (map hash (map f tails2))
          \<in> set (fst (get_bundles_from_transaction_hashes ad hs' inc))"
        by (rule resolver_sends [OF ne' H1' ft' at'])
      from H2 sent have ans: "GetBundlesCommand ad (map hash tails') =
          Inr (map bundle_of (map hash tails'))" by blast
      from H2 sent' have ans': "GetBundlesCommand ad (map hash (map f tails2)) =
          Inr (map bundle_of (map hash (map f tails2)))" by blast
      have R: "?R = Inr (sort_key ?key (map ?G tails'))"
        by (rule resolver_elementwise [OF ne H1 ft at ans])
      have R': "?R' = Inr (sort_key ?key (map ?G (map f tails2)))"
        by (rule resolver_elementwise [OF ne' H1' ft' at' ans'])
      have "sort_key ?key (map ?G tails') = sort_key ?key (map ?G (map f tails2))"
        if "distinct (map (timestamp \<circ> tail_transaction) (sort_key ?key (map ?G tails')))"
      proof (rule sort_key_perm [OF m'])
        from that have "distinct (map ?key (sort_key ?key (map ?G tails')))"
          by (simp add: comp_def)
        then show "distinct (map ?key (map ?G tails'))"
          by (simp add: distinct_map_sort_key)
      qed
      with m' show ?thesis unfolding R R' by simp
    qed
  qed
qed

section \<open>The claims about the resolver\<close>

text \<open>
  C7. For both values of the inclusion-states flag, the resolver applied to the empty
  collection of hashes returns the empty list and sends no request.
\<close>

theorem resolver_empty_input:
  "get_bundles_from_transaction_hashes ad [] inclusion_states = ([], Inr [])"
  by (simp add: get_bundles_from_transaction_hashes_def io_return_def)


text \<open>
  C6, as stated, fails. Behind the adapter whose get-bundles response leaves out bundle
  A, the tail hashes \<open>TA\<close> and \<open>TB\<close> are requested and only bundle B is answered;
  the flags are copied by position, so bundle B is returned with the state of \<open>TA\<close>
  (true), while the state reported for its own tail hash \<open>TB\<close> is false.
\<close>

theorem resolver_flag_counterexample:
  "snd (get_bundles_from_transaction_hashes pruned_ledger [''TA'', ''NB''] True) =
     Inr [set_is_confirmed (example_bundle ''TB'') (Some True)] \<and>
   hash (tail_transaction (set_is_confirmed (example_bundle ''TB'') (Some True))) = ''TB'' \<and>
   bundle_is_confirmed (set_is_confirmed (example_bundle ''TB'') (Some True)) = Some True \<and>
   map_sum id (\<lambda>states. states ''TB'') (GetLatestInclusionCommand pruned_ledger {''TA'', ''TB''}) =
     Inr (Some False)"
  by (simp add: ex_defs resolve_defs Let_def)

text \<open>
  C6, amended. With inclusion states requested, and the get-bundles request that is sent
  answered by bundles parallel to the requested tail hashes (each bundle's tail
  transaction has the requested hash, as the adapter is contracted to do), the flag of
  every returned bundle is what the get-latest-inclusion response holds for the hash of
  the bundle's tail transaction: the reported state, or none where the response has no
  state for the hash. Without inclusion states requested, no get-latest-inclusion
  request is sent and every returned bundle is a bundle of the get-bundles response as
  it was answered.
\<close>

theorem resolver_confirmation_flags:
  "(inclusion_states \<longrightarrow>
      (\<forall>ths bs.
          GetBundles ths
            \<in> set (fst (get_bundles_from_transaction_hashes ad transaction_hashes inclusion_states)) \<and>
          GetBundlesCommand ad ths = Inr bs \<longrightarrow>
          map (hash \<circ> tail_transaction) bs = ths) \<longrightarrow>
      snd (get_bundles_from_transaction_hashes ad transaction_hashes inclusion_states) = Inr bundles \<longrightarrow>
      (\<forall>b \<in> set bundles. \<exists>T states.
          GetLatestInclusion T
            \<in> set (fst (get_bundles_from_transaction_hashes ad transaction_hashes inclusion_states)) \<and>
          GetLatestInclusionCommand ad T = Inr states \<and>
          hash (tail_transaction b) \<in> T \<and>
          bundle_is_confirmed b = states (hash (tail_transaction b)))) \<and>
   (\<not> inclusion_states \<longrightarrow>
      (\<forall>T. GetLatestInclusion T
            \<notin> set (fst (get_bundles_from_transaction_hashes ad transaction_hashes inclusion_states))) \<and>
      (snd (get_bundles_from_transaction_hashes ad transaction_hashes inclusion_states) = Inr bundles \<longrightarrow>
       (\<forall>b \<in> set bundles. \<exists>ths bs.
           GetBundles ths
             \<in> set (fst (get_bundles_from_transaction_hashes ad transaction_hashes inclusion_states)) \<and>
           GetBundlesCommand ad ths = Inr bs \<and> b \<in> set bs)))"
  (is "(_ \<longrightarrow> ?par \<longrightarrow> ?ok \<longrightarrow> ?flags) \<and> (_ \<longrightarrow> ?quiet \<and> (?ok' \<longrightarrow> ?same))")
proof (intro conjI impI)
  assume inc: inclusion_states and par: ?par and ok: ?ok
  show ?flags
  proof
    fix b assume b: "b \<in> set bundles"
    then have ne: "transaction_hashes \<noteq> []"
      using ok by (auto simp: get_bundles_from_transaction_hashes_def io_return_def)
    from resolver_Inr [OF ok ne] obtain trytes tails T tails' where
      ft: "snd (find_tail_transactions ad (map (from_tryte_string ad) trytes)) = Inr (tails, T)"
      and at: "snd (attach_inclusion_states ad inclusion_states tails T) = Inr tails'"
      and fb: "snd (find_the_bundles ad inclusion_states tails') = Inr bundles"
      and calls: "fst (get_bundles_from_transaction_hashes ad transaction_hashes inclusion_states) =
        GetTrytes transaction_hashes #
        fst (find_tail_transactions ad (map (from_tryte_string ad) trytes)) @
        fst (attach_inclusion_states ad inclusion_states tails T) @
        fst (find_the_bundles ad inclusion_states tails')"
      by blast
    from attach_inclusion_states_Inr [OF at] inc obtain states where
      st: "GetLatestInclusionCommand ad T = Inr states"
      and tails': "tails' = map (\<lambda>txn. txn\<lparr>is_confirmed := states (hash txn)\<rparr>) tails"
      and acalls: "fst (attach_inclusion_states ad inclusion_states tails T) = [GetLatestInclusion T]"
      by auto
    from find_the_bundles_Inr [OF fb] inc obtain bs where
      gb: "GetBundlesCommand ad (map hash tails') = Inr bs"
      and bundles: "bundles = sort_key (\<lambda>bundle. timestamp (tail_transaction bundle))
                       (copy_is_confirmed bs tails')"
      and fcalls: "fst (find_the_bundles ad inclusion_states tails') = [GetBundles (map hash tails')]"
      by auto
    from calls fcalls have "GetBundles (map hash tails')
        \<in> set (fst (get_bundles_from_transaction_hashes ad transaction_hashes inclusion_states))"
      by simp
    with par gb have "map (hash \<circ> tail_transaction) bs = map hash tails'" by blast
    moreover from b bundles have "b \<in> set (copy_is_confirmed bs tails')" by simp
    ultimately obtain t where t: "t \<in> set tails'" "hash (tail_transaction b) = hash t"
      "bundle_is_confirmed b = is_confirmed t"
      using copy_is_confirmed_parallel by blast
    from t(1) tails' obtain t0 where t0: "t0 \<in> set tails" "t = t0\<lparr>is_confirmed := states (hash t0)\<rparr>"
      by auto
    from t0 find_tail_transactions_hashes [OF ft] have "hash t \<in> T" "is_confirmed t = states (hash t)"
      by auto
    with t st acalls calls show "\<exists>T states.
          GetLatestInclusion T
            \<in> set (fst (get_bundles_from_transaction_hashes ad transaction_hashes inclusion_states)) \<and>
          GetLatestInclusionCommand ad T = Inr states \<and>
          hash (tail_transaction b) \<in> T \<and>
          bundle_is_confirmed b = states (hash (tail_transaction b))"
      by (intro exI [of _ T] exI [of _ states]) simp
  qed
next
  assume ninc: "\<not> inclusion_states"
  show ?quiet
    using ninc unfolding get_bundles_from_transaction_hashes_def
    by (auto simp: fst_io_bind io_return_def await_def find_tail_transactions_calls
          attach_inclusion_states_def find_the_bundles_def
          split: sum.splits prod.splits)
next
  assume ninc: "\<not> inclusion_states" and ok: ?ok'
  show ?same
  proof
    fix b assume b: "b \<in> set bundles"
    then have ne: "transaction_hashes \<noteq> []"
      using ok by (auto simp: get_bundles_from_transaction_hashes_def io_return_def)
    from resolver_Inr [OF ok ne] obtain trytes tails T tails' where
      fb: "snd (find_the_bundles ad inclusion_states tails') = Inr bundles"
      and calls: "fst (get_bundles_from_transaction_hashes ad transaction_hashes inclusion_states) =
        GetTrytes transaction_hashes #
        fst (find_tail_transactions ad (map (from_tryte_string ad) trytes)) @
        fst (attach_inclusion_states ad inclusion_states tails T) @
        fst (find_the_bundles ad inclusion_states tails')"
      by blast
    from find_the_bundles_Inr [OF fb] ninc obtain bs where
      gb: "GetBundlesCommand ad (map hash tails') = Inr bs"
      and bundles: "bundles = sort_key (\<lambda>bundle. timestamp (tail_transaction bundle)) bs"
      and fcalls: "fst (find_the_bundles ad inclusion_states tails') = [GetBundles (map hash tails')]"
      by auto
    from b bundles have "b \<in> set bs" by simp
    with gb fcalls calls show "\<exists>ths bs.
           GetBundles ths
             \<in> set (fst (get_bundles_from_transaction_hashes ad transaction_hashes inclusion_states)) \<and>
           GetBundlesCommand ad ths = Inr bs \<and> b \<in> set bs"
      by (intro exI [of _ "map hash tails'"] exI [of _ bs]) simp
  qed
qed

text \<open>
  The amended C6 on the small ledger: the bundles of \<open>TA\<close> and \<open>NB\<close> come back with the states
  reported for \<open>TB\<close> and \<open>TA\<close>.
\<close>

theorem resolver_confirmation_flags_witness:
  "snd (get_bundles_from_transaction_hashes example_ledger [''TA'', ''NB''] True) =
     Inr [set_is_confirmed (example_bundle ''TB'') (Some False),
          set_is_confirmed (example_bundle ''TA'') (Some True)] \<and>
   (\<exists>T states.
      GetLatestInclusion T
        \<in> set (fst (get_bundles_from_transaction_hashes example_ledger [''TA'', ''NB''] True)) \<and>
      GetLatestInclusionCommand example_ledger T = Inr states \<and>
      hash (tail_transaction (set_is_confirmed (example_bundle ''TA'') (Some True))) \<in> T \<and>
      bundle_is_confirmed (set_is_confirmed (example_bundle ''TA'') (Some True)) =
        states (hash (tail_transaction (set_is_confirmed (example_bundle ''TA'') (Some True)))))"
proof -
  have calls: "fst (get_bundles_from_transaction_hashes example_ledger [''TA'', ''NB''] True) =
      [GetTrytes [''TA'', ''NB''], FindTransactionObjects {''BB''},
       GetLatestInclusion {''TA'', ''TB''}, GetBundles [''TA'', ''TB'']]"
    by (simp add: ex_defs resolve_defs Let_def insert_commute)
  have par: "\<forall>ths bs.
      GetBundles ths \<in> set (fst (get_bundles_from_transaction_hashes example_ledger [''TA'', ''NB''] True)) \<and>
      GetBundlesCommand example_ledger ths = Inr bs \<longrightarrow>
      map (hash \<circ> tail_transaction) bs = ths"
    unfolding calls by (auto simp: ex_defs)
  have ok: "snd (get_bundles_from_transaction_hashes example_ledger [''TA'', ''NB''] True) =
     Inr [set_is_confirmed (example_bundle ''TB'') (Some False),
          set_is_confirmed (example_bundle ''TA'') (Some True)]"
    by (simp add: ex_defs resolve_defs Let_def)
  note inst = resolver_confirmation_flags [where ad = example_ledger
      and transaction_hashes = "[''TA'', ''NB'']" and inclusion_states = True
      and bundles = "[set_is_confirmed (example_bundle ''TB'') (Some False),
                      set_is_confirmed (example_bundle ''TA'') (Some True)]"]
  have "\<forall>b \<in> set [set_is_confirmed (example_bundle ''TB'') (Some False),
                    set_is_confirmed (example_bundle ''TA'') (Some True)].
      \<exists>T states.
        GetLatestInclusion T
          \<in> set (fst (get_bundles_from_transaction_hashes example_ledger [''TA'', ''NB''] True)) \<and>
        GetLatestInclusionCommand example_ledger T = Inr states \<and>
        hash (tail_transaction b) \<in> T \<and>
        bundle_is_confirmed b = states (hash (tail_transaction b))"
    by (rule mp [OF mp [OF mp [OF conjunct1 [OF inst] TrueI] par] ok])
  then have "\<exists>T states.
      GetLatestInclusion T
        \<in> set (fst (get_bundles_from_transaction_hashes example_ledger [''TA'', ''NB''] True)) \<and>
      GetLatestInclusionCommand example_ledger T = Inr states \<and>
      hash (tail_transaction (set_is_confirmed (example_bundle ''TA'') (Some True))) \<in> T \<and>
      bundle_is_confirmed (set_is_confirmed (example_bundle ''TA'') (Some True)) =
        states (hash (tail_transaction (set_is_confirmed (example_bundle ''TA'') (Some True))))"
    by (simp only: list.set ball_simps insert_iff simp_thms)
  with ok show ?thesis by (rule conjI)
qed

text \<open>
  C4, as stated, fails. The bundles A and C have the same tail timestamp; given their
  tail hashes in the two orders, the resolver returns the two bundles in the two orders.
\<close>

theorem resolver_order_counterexample:
  "mset [''TA'', ''TC''] = mset [''TC'', ''TA''] \<and>
   snd (get_bundles_from_transaction_hashes example_ledger [''TA'', ''TC''] False) =
     Inr [example_bundle ''TA'', example_bundle ''TC''] \<and>
   snd (get_bundles_from_transaction_hashes example_ledger [''TC'', ''TA''] False) =
     Inr [example_bundle ''TC'', example_bundle ''TA''] \<and>
   example_bundle ''TA'' \<noteq> example_bundle ''TC''"
  by (simp add: ex_defs resolve_defs Let_def)


text \<open>
  C4, amended. Whatever the adapter answers, a returned list of bundles is ordered
  ascending by tail-transaction timestamp. The tail hashes requested from get-bundles
  are the final tail-hash set of the spec, those of the decoded transactions first and
  in input order; the bundles of one tail timestamp are returned in the order of the
  get-bundles response. When the final tail-hash set has two hashes, each requested
  once, get-bundles answers the request element by element, and the tail timestamp
  \<open>T1\<close> of the first bundle is below the tail timestamp \<open>T2\<close> of the second, the
  result is the bundle of \<open>T1\<close> followed by the bundle of \<open>T2\<close> (each with its
  reported state, if inclusion states are requested), whatever the input order. For two
  permutations of the same input, with get-trytes answering the two requests element by
  element and get-bundles the requests sent, the two calls fail alike or return the
  same bundles, each as often, and they return the same list whenever the tail
  timestamps of the returned bundles are pairwise distinct.
\<close>

theorem resolver_sorted_order_independent:
  "(snd (get_bundles_from_transaction_hashes ad transaction_hashes inclusion_states) = Inr bundles \<longrightarrow>
      sorted (map (timestamp \<circ> tail_transaction) bundles)) \<and>
   (GetTrytesCommand ad transaction_hashes = Inr trytes \<and>
    GetBundles ths
      \<in> set (fst (get_bundles_from_transaction_hashes ad transaction_hashes inclusion_states)) \<longrightarrow>
      set ths = spec_tail_hashes ad (map (from_tryte_string ad) trytes) \<and>
      (\<exists>rest. ths =
         map hash (filter (\<lambda>t. hash t \<in> set ths) (map (from_tryte_string ad) trytes)) @ rest)) \<and>
   (GetBundles ths
      \<in> set (fst (get_bundles_from_transaction_hashes ad transaction_hashes inclusion_states)) \<and>
    GetBundlesCommand ad ths = Inr bs \<longrightarrow>
      (\<exists>returned.
         snd (get_bundles_from_transaction_hashes ad transaction_hashes inclusion_states) =
           Inr returned \<and>
         map (hash \<circ> tail_transaction)
           (filter (\<lambda>b. timestamp (tail_transaction b) = k) returned) =
         map (hash \<circ> tail_transaction)
           (filter (\<lambda>b. timestamp (tail_transaction b) = k) bs))) \<and>
   (GetTrytesCommand ad transaction_hashes = Inr trytes \<and>
    spec_tail_hashes ad (map (from_tryte_string ad) trytes) = {h1, h2} \<and>
    GetBundles ths
      \<in> set (fst (get_bundles_from_transaction_hashes ad transaction_hashes inclusion_states)) \<and>
    distinct ths \<and>
    GetBundlesCommand ad ths = Inr (map bundle_of ths) \<and>
    (inclusion_states \<longrightarrow> GetLatestInclusionCommand ad {h1, h2} = Inr states) \<and>
    timestamp (tail_transaction (bundle_of h1)) < timestamp (tail_transaction (bundle_of h2)) \<longrightarrow>
      snd (get_bundles_from_transaction_hashes ad transaction_hashes inclusion_states) =
        Inr [if inclusion_states then set_is_confirmed (bundle_of h1) (states h1) else bundle_of h1,
             if inclusion_states then set_is_confirmed (bundle_of h2) (states h2) else bundle_of h2]) \<and>
   (GetTrytesCommand ad transaction_hashes = Inr (map fetch transaction_hashes) \<and>
    GetTrytesCommand ad permuted = Inr (map fetch permuted) \<and>
    (\<forall>ths.
       GetBundles ths
         \<in> set (fst (get_bundles_from_transaction_hashes ad transaction_hashes inclusion_states)) \<or>
       GetBundles ths
         \<in> set (fst (get_bundles_from_transaction_hashes ad permuted inclusion_states)) \<longrightarrow>
       GetBundlesCommand ad ths = Inr (map bundle_of ths)) \<and>
    mset transaction_hashes = mset permuted \<longrightarrow>
      map_sum id mset (snd (get_bundles_from_transaction_hashes ad transaction_hashes inclusion_states)) =
      map_sum id mset (snd (get_bundles_from_transaction_hashes ad permuted inclusion_states)) \<and>
      ((\<forall>bs. snd (get_bundles_from_transaction_hashes ad transaction_hashes inclusion_states) = Inr bs \<longrightarrow>
             distinct (map (timestamp \<circ> tail_transaction) bs)) \<longrightarrow>
       snd (get_bundles_from_transaction_hashes ad transaction_hashes inclusion_states) =
       snd (get_bundles_from_transaction_hashes ad permuted inclusion_states)))"
proof (intro conjI impI; (elim conjE)?)
  assume ok: "snd (get_bundles_from_transaction_hashes ad transaction_hashes inclusion_states) = Inr bundles"
  show "sorted (map (timestamp \<circ> tail_transaction) bundles)"
  proof (cases "transaction_hashes = []")
    case True
    with ok show ?thesis by (simp add: get_bundles_from_transaction_hashes_def io_return_def)
  next
    case False
    from resolver_Inr [OF ok False] show ?thesis by (blast intro: find_the_bundles_sorted)
  qed
next
  assume "GetTrytesCommand ad transaction_hashes = Inr trytes"
    and "GetBundles ths
      \<in> set (fst (get_bundles_from_transaction_hashes ad transaction_hashes inclusion_states))"
  from resolver_request [OF this]
  show "set ths = spec_tail_hashes ad (map (from_tryte_string ad) trytes)"
    and "\<exists>rest. ths =
         map hash (filter (\<lambda>t. hash t \<in> set ths) (map (from_tryte_string ad) trytes)) @ rest"
    by blast+
next
  assume "GetBundles ths
      \<in> set (fst (get_bundles_from_transaction_hashes ad transaction_hashes inclusion_states))"
    and "GetBundlesCommand ad ths = Inr bs"
  then show "\<exists>returned.
         snd (get_bundles_from_transaction_hashes ad transaction_hashes inclusion_states) =
           Inr returned \<and>
         map (hash \<circ> tail_transaction)
           (filter (\<lambda>b. timestamp (tail_transaction b) = k) returned) =
         map (hash \<circ> tail_transaction)
           (filter (\<lambda>b. timestamp (tail_transaction b) = k) bs)"
    by (rule resolver_stable)
next
  assume "GetTrytesCommand ad transaction_hashes = Inr trytes"
    and "spec_tail_hashes ad (map (from_tryte_string ad) trytes) = {h1, h2}"
    and "GetBundles ths
      \<in> set (fst (get_bundles_from_transaction_hashes ad transaction_hashes inclusion_states))"
    and "distinct ths"
    and "GetBundlesCommand ad ths = Inr (map bundle_of ths)"
    and "inclusion_states \<longrightarrow> GetLatestInclusionCommand ad {h1, h2} = Inr states"
    and "timestamp (tail_transaction (bundle_of h1)) < timestamp (tail_transaction (bundle_of h2))"
  then show "snd (get_bundles_from_transaction_hashes ad transaction_hashes inclusion_states) =
        Inr [if inclusion_states then set_is_confirmed (bundle_of h1) (states h1) else bundle_of h1,
             if inclusion_states then set_is_confirmed (bundle_of h2) (states h2) else bundle_of h2]"
    by (rule resolver_two_bundles)
next
  assume H: "GetTrytesCommand ad transaction_hashes = Inr (map fetch transaction_hashes)"
    "GetTrytesCommand ad permuted = Inr (map fetch permuted)"
    "\<forall>ths.
       GetBundles ths
         \<in> set (fst (get_bundles_from_transaction_hashes ad transaction_hashes inclusion_states)) \<or>
       GetBundles ths
         \<in> set (fst (get_bundles_from_transaction_hashes ad permuted inclusion_states)) \<longrightarrow>
       GetBundlesCommand ad ths = Inr (map bundle_of ths)"
    "mset transaction_hashes = mset permuted"
  note both = resolver_permuted [OF H]
  from both show "map_sum id mset
        (snd (get_bundles_from_transaction_hashes ad transaction_hashes inclusion_states)) =
      map_sum id mset (snd (get_bundles_from_transaction_hashes ad permuted inclusion_states))"
    by (rule conjunct1)
  from both show "snd (get_bundles_from_transaction_hashes ad transaction_hashes inclusion_states) =
       snd (get_bundles_from_transaction_hashes ad permuted inclusion_states)"
    if "\<forall>bs. snd (get_bundles_from_transaction_hashes ad transaction_hashes inclusion_states) = Inr bs \<longrightarrow>
             distinct (map (timestamp \<circ> tail_transaction) bs)"
    using that by blast
qed

text \<open>
  The amended C4 on the small ledger: \<open>TA\<close> (timestamp 20) and \<open>NB\<close> (bundle B,
  timestamp 10) give bundle B followed by bundle A in both input orders.
\<close>

theorem resolver_sorted_order_independent_witness:
  "fst (get_bundles_from_transaction_hashes example_ledger [''TA'', ''NB''] False) =
     [GetTrytes [''TA'', ''NB''], FindTransactionObjects {''BB''}, GetBundles [''TA'', ''TB'']] \<and>
   fst (get_bundles_from_transaction_hashes example_ledger [''NB'', ''TA''] False) =
     [GetTrytes [''NB'', ''TA''], FindTransactionObjects {''BB''}, GetBundles [''TA'', ''TB'']] \<and>
   spec_tail_hashes example_ledger (map (from_tryte_string example_ledger) [''TA'', ''NB'']) =
     {''TB'', ''TA''} \<and>
   timestamp (tail_transaction (example_bundle ''TB'')) <
     timestamp (tail_transaction (example_bundle ''TA'')) \<and>
   snd (get_bundles_from_transaction_hashes example_ledger [''TA'', ''NB''] False) =
     Inr [example_bundle ''TB'', example_bundle ''TA''] \<and>
   snd (get_bundles_from_transaction_hashes example_ledger [''NB'', ''TA''] False) =
     Inr [example_bundle ''TB'', example_bundle ''TA''] \<and>
   sorted (map (timestamp \<circ> tail_transaction) [example_bundle ''TB'', example_bundle ''TA''])"
proof -
  have calls: "fst (get_bundles_from_transaction_hashes example_ledger [''TA'', ''NB''] False) =
     [GetTrytes [''TA'', ''NB''], FindTransactionObjects {''BB''}, GetBundles [''TA'', ''TB'']]"
    by (simp add: ex_defs resolve_defs Let_def)
  have calls': "fst (get_bundles_from_transaction_hashes example_ledger [''NB'', ''TA''] False) =
     [GetTrytes [''NB'', ''TA''], FindTransactionObjects {''BB''}, GetBundles [''TA'', ''TB'']]"
    by (simp add: ex_defs resolve_defs Let_def)
  have gt: "GetTrytesCommand example_ledger [''TA'', ''NB''] = Inr [''TA'', ''NB'']"
    by (simp add: ex_defs)
  have spec: "spec_tail_hashes example_ledger
      (map (from_tryte_string example_ledger) [''TA'', ''NB'']) = {''TB'', ''TA''}"
    by (simp add: ex_defs spec_tail_hashes_def Let_def insert_commute)
  have sent: "GetBundles [''TA'', ''TB'']
      \<in> set (fst (get_bundles_from_transaction_hashes example_ledger [''TA'', ''NB''] False))"
    unfolding calls by simp
  have dist: "distinct [''TA'', ''TB'']" by simp
  have ans: "GetBundlesCommand example_ledger [''TA'', ''TB''] =
      Inr (map example_bundle [''TA'', ''TB''])"
    by (simp add: ex_defs)
  have states: "False \<longrightarrow> GetLatestInclusionCommand example_ledger {''TB'', ''TA''} = Inr Map.empty"
    by simp
  have less: "timestamp (tail_transaction (example_bundle ''TB'')) <
     timestamp (tail_transaction (example_bundle ''TA''))"
    by (simp add: ex_defs)
  note inst = resolver_sorted_order_independent [where ad = example_ledger
      and transaction_hashes = "[''TA'', ''NB'']" and permuted = "[''NB'', ''TA'']"
      and inclusion_states = False and fetch = "\<lambda>h. h" and bundle_of = example_bundle
      and trytes = "[''TA'', ''NB'']" and ths = "[''TA'', ''TB'']" and ?h1.0 = "''TB''"
      and ?h2.0 = "''TA''" and states = Map.empty
      and bundles = "[example_bundle ''TB'', example_bundle ''TA'']"]
  have two: "snd (get_bundles_from_transaction_hashes example_ledger [''TA'', ''NB''] False) =
      Inr [if False then set_is_confirmed (example_bundle ''TB'') (Map.empty ''TB'')
             else example_bundle ''TB'',
           if False then set_is_confirmed (example_bundle ''TA'') (Map.empty ''TA'')
             else example_bundle ''TA'']"
    by (rule mp [OF conjunct1 [OF conjunct2 [OF conjunct2 [OF conjunct2 [OF inst]]]]])
      (intro conjI gt spec sent dist ans states less)
  then have ok: "snd (get_bundles_from_transaction_hashes example_ledger [''TA'', ''NB''] False) =
      Inr [example_bundle ''TB'', example_bundle ''TA'']"
    by (simp only: if_False)
  have sorted: "sorted (map (timestamp \<circ> tail_transaction)
      [example_bundle ''TB'', example_bundle ''TA''])"
    by (rule mp [OF conjunct1 [OF inst] ok])
  have H1: "GetTrytesCommand example_ledger [''TA'', ''NB''] = Inr (map (\<lambda>h. h) [''TA'', ''NB''])"
    "GetTrytesCommand example_ledger [''NB'', ''TA''] = Inr (map (\<lambda>h. h) [''NB'', ''TA''])"
    by (simp_all add: ex_defs)
  have H2: "\<forall>ths.
       GetBundles ths
         \<in> set (fst (get_bundles_from_transaction_hashes example_ledger [''TA'', ''NB''] False)) \<or>
       GetBundles ths
         \<in> set (fst (get_bundles_from_transaction_hashes example_ledger [''NB'', ''TA''] False)) \<longrightarrow>
       GetBundlesCommand example_ledger ths = Inr (map example_bundle ths)"
    by (simp add: example_ledger_def)
  have perm: "mset [''TA'', ''NB''] = mset [''NB'', ''TA'']" by simp
  have distinct: "\<forall>bs. snd (get_bundles_from_transaction_hashes example_ledger [''TA'', ''NB''] False) =
        Inr bs \<longrightarrow> distinct (map (timestamp \<circ> tail_transaction) bs)"
    unfolding ok by (simp add: ex_defs)
  have "snd (get_bundles_from_transaction_hashes example_ledger [''TA'', ''NB''] False) =
      snd (get_bundles_from_transaction_hashes example_ledger [''NB'', ''TA''] False)"
    by (rule mp [OF conjunct2 [OF mp [OF conjunct2 [OF conjunct2 [OF conjunct2 [OF conjunct2 [OF inst]]]]]]
          distinct])
      (intro conjI H1 H2 perm)
  with ok have ok': "snd (get_bundles_from_transaction_hashes example_ledger [''NB'', ''TA''] False) =
      Inr [example_bundle ''TB'', example_bundle ''TA'']"
    by simp
  from calls calls' spec less ok ok' sorted show ?thesis by (intro conjI)
qed

text \<open>
  C5, as stated, fails. Given the tail hash \<open>TA\<close> twice, the resolver returns the
  bundle A twice.
\<close>

theorem resolver_duplicate_counterexample:
  "snd (get_bundles_from_transaction_hashes example_ledger [''TA'', ''TA''] False) =
     Inr [example_bundle ''TA'', example_bundle ''TA'']"
  by (simp add: ex_defs resolve_defs Let_def)


text \<open>
  C5, amended. Let no tail transaction be decoded twice from the get-trytes response
  (no tail hash is given more than once), and let transactions with the same hash,
  among the decoded ones and between them and the ones found for the non-tail bundles,
  agree on being a tail. Then the tail hashes requested from get-bundles are pairwise
  distinct and are exactly the final tail-hash set of the spec: the hashes of the
  decoded tails and of the tails found for the bundles of the decoded non-tail
  transactions. If the get-bundles response is parallel to its request, the call
  returns bundles whose tail hashes are pairwise distinct and are exactly that set:
  every resolved bundle occurs exactly once. This covers a tail hash given together
  with non-tail hashes of the same bundle, and a non-tail hash given more than once.
\<close>

theorem resolver_each_bundle_once:
  assumes trytes: "GetTrytesCommand ad transaction_hashes = Inr trytes"
    and once: "distinct (map hash (filter is_tail (map (from_tryte_string ad) trytes)))"
    and kind: "same_hash_same_kind (map (from_tryte_string ad) trytes)
                 (map (from_tryte_string ad) trytes)"
    and found_kind: "\<forall>N found.
        FindTransactionObjects N
          \<in> set (fst (get_bundles_from_transaction_hashes ad transaction_hashes inclusion_states)) \<and>
        FindTransactionObjectsCommand ad N = Inr found \<longrightarrow>
        same_hash_same_kind found (map (from_tryte_string ad) trytes)"
  shows "(\<forall>ths.
            GetBundles ths
              \<in> set (fst (get_bundles_from_transaction_hashes ad transaction_hashes inclusion_states)) \<longrightarrow>
            distinct ths \<and>
            set ths = spec_tail_hashes ad (map (from_tryte_string ad) trytes)) \<and>
         (\<forall>ths bs.
            GetBundles ths
              \<in> set (fst (get_bundles_from_transaction_hashes ad transaction_hashes inclusion_states)) \<and>
            GetBundlesCommand ad ths = Inr bs \<and>
            map (hash \<circ> tail_transaction) bs = ths \<longrightarrow>
            (\<exists>bundles.
               snd (get_bundles_from_transaction_hashes ad transaction_hashes inclusion_states) =
                 Inr bundles \<and>
               distinct (map (hash \<circ> tail_transaction) bundles) \<and>
               set (map (hash \<circ> tail_transaction) bundles) =
                 spec_tail_hashes ad (map (from_tryte_string ad) trytes)))"
proof -
  let ?R = "get_bundles_from_transaction_hashes ad transaction_hashes inclusion_states"
  let ?all0 = "map (from_tryte_string ad) trytes"
  have requested: "distinct ths \<and> set ths = spec_tail_hashes ad ?all0"
    if "GetBundles ths \<in> set (fst ?R)" for ths
  proof -
    from resolver_sent [OF that] trytes obtain tails T where
      ft: "snd (find_tail_transactions ad ?all0) = Inr (tails, T)"
      and ths: "ths = map hash tails"
      and sub: "set (fst (find_tail_transactions ad ?all0)) \<subseteq> set (fst ?R)"
      by auto
    from found_kind sub have "\<forall>N found.
        FindTransactionObjects N \<in> set (fst (find_tail_transactions ad ?all0)) \<and>
        FindTransactionObjectsCommand ad N = Inr found \<longrightarrow> same_hash_same_kind found ?all0"
      by blast
    from find_tail_transactions_distinct [OF ft once kind this]
    have "distinct ths" unfolding ths by simp
    moreover from find_tail_transactions_spec [OF ft]
    have "set ths = spec_tail_hashes ad ?all0" unfolding ths by blast
    ultimately show ?thesis by (rule conjI)
  qed
  have returned: "\<exists>bundles. snd ?R = Inr bundles \<and>
      distinct (map (hash \<circ> tail_transaction) bundles) \<and>
      set (map (hash \<circ> tail_transaction) bundles) = spec_tail_hashes ad ?all0"
    if sent: "GetBundles ths \<in> set (fst ?R)" and gb: "GetBundlesCommand ad ths = Inr bs"
      and par: "map (hash \<circ> tail_transaction) bs = ths" for ths bs
  proof -
    from resolver_sent [OF sent] gb obtain tails' where
      R: "snd ?R = Inr (sort_key (\<lambda>bundle. timestamp (tail_transaction bundle))
                   (if inclusion_states then copy_is_confirmed bs tails' else bs))"
      by auto
    let ?bundles = "sort_key (\<lambda>bundle. timestamp (tail_transaction bundle))
                   (if inclusion_states then copy_is_confirmed bs tails' else bs)"
    have m: "mset (map (hash \<circ> tail_transaction) ?bundles) = mset ths"
      unfolding tail_hashes_copy_sorted par by (rule refl)
    from requested [OF sent] have "distinct ths" "set ths = spec_tail_hashes ad ?all0" by blast+
    with m have "distinct (map (hash \<circ> tail_transaction) ?bundles)"
      "set (map (hash \<circ> tail_transaction) ?bundles) = spec_tail_hashes ad ?all0"
      by (metis mset_eq_imp_distinct_iff, metis mset_eq_setD)
    with R show ?thesis by blast
  qed
  from requested returned show ?thesis by blast
qed


text \<open>
  The amended C5 on the small ledger: the non-tail hash of bundle B given twice gives
  bundle B, found through its bundle hash, once; so does its tail hash given together
  with its non-tail hash.
\<close>

theorem resolver_each_bundle_once_witness:
  "GetTrytesCommand example_ledger [''NB'', ''NB''] = Inr [''NB'', ''NB''] \<and>
   fst (get_bundles_from_transaction_hashes example_ledger [''NB'', ''NB''] False) =
     [GetTrytes [''NB'', ''NB''], FindTransactionObjects {''BB''}, GetBundles [''TB'']] \<and>
   GetBundlesCommand example_ledger [''TB''] = Inr [example_bundle ''TB''] \<and>
   spec_tail_hashes example_ledger (map (from_tryte_string example_ledger) [''NB'', ''NB'']) =
     {''TB''} \<and>
   (\<exists>bundles.
      snd (get_bundles_from_transaction_hashes example_ledger [''NB'', ''NB''] False) = Inr bundles \<and>
      distinct (map (hash \<circ> tail_transaction) bundles) \<and>
      set (map (hash \<circ> tail_transaction) bundles) = {''TB''}) \<and>
   snd (get_bundles_from_transaction_hashes example_ledger [''NB'', ''NB''] False) =
     Inr [example_bundle ''TB''] \<and>
   snd (get_bundles_from_transaction_hashes example_ledger [''TB'', ''NB''] False) =
     Inr [example_bundle ''TB'']"
proof -
  have trytes: "GetTrytesCommand example_ledger [''NB'', ''NB''] = Inr [''NB'', ''NB'']"
    by (simp add: ex_defs)
  have once: "distinct (map hash (filter is_tail
      (map (from_tryte_string example_ledger) [''NB'', ''NB''])))"
    by (simp add: ex_defs)
  have kind: "same_hash_same_kind (map (from_tryte_string example_ledger) [''NB'', ''NB''])
      (map (from_tryte_string example_ledger) [''NB'', ''NB''])"
    by (simp add: ex_defs same_hash_same_kind_def)
  have calls: "fst (get_bundles_from_transaction_hashes example_ledger [''NB'', ''NB''] False) =
     [GetTrytes [''NB'', ''NB''], FindTransactionObjects {''BB''}, GetBundles [''TB'']]"
    by (simp add: ex_defs resolve_defs Let_def)
  have found_kind: "\<forall>N found.
      FindTransactionObjects N
        \<in> set (fst (get_bundles_from_transaction_hashes example_ledger [''NB'', ''NB''] False)) \<and>
      FindTransactionObjectsCommand example_ledger N = Inr found \<longrightarrow>
      same_hash_same_kind found (map (from_tryte_string example_ledger) [''NB'', ''NB''])"
    unfolding calls by (auto simp: ex_defs same_hash_same_kind_def)
  have gb: "GetBundlesCommand example_ledger [''TB''] = Inr [example_bundle ''TB'']"
    by (simp add: ex_defs)
  have par: "map (hash \<circ> tail_transaction) [example_bundle ''TB''] = [''TB'']"
    by (simp add: ex_defs)
  have sent: "GetBundles [''TB'']
      \<in> set (fst (get_bundles_from_transaction_hashes example_ledger [''NB'', ''NB''] False))"
    unfolding calls by simp
  have spec: "spec_tail_hashes example_ledger
      (map (from_tryte_string example_ledger) [''NB'', ''NB'']) = {''TB''}"
    by (simp add: ex_defs spec_tail_hashes_def Let_def)
  have ok: "snd (get_bundles_from_transaction_hashes example_ledger [''NB'', ''NB''] False) =
     Inr [example_bundle ''TB'']"
    by (simp add: ex_defs resolve_defs Let_def)
  have ok': "snd (get_bundles_from_transaction_hashes example_ledger [''TB'', ''NB''] False) =
     Inr [example_bundle ''TB'']"
    by (simp add: ex_defs resolve_defs Let_def)
  note inst = resolver_each_bundle_once [OF trytes once kind found_kind]
  from conjunct2 [OF inst, rule_format, of "[''TB'']" "[example_bundle ''TB'']",
      OF conjI [OF sent conjI [OF gb par]]]
  have "\<exists>bundles.
      snd (get_bundles_from_transaction_hashes example_ledger [''NB'', ''NB''] False) = Inr bundles \<and>
      distinct (map (hash \<circ> tail_transaction) bundles) \<and>
      set (map (hash \<circ> tail_transaction) bundles) =
        spec_tail_hashes example_ledger (map (from_tryte_string example_ledger) [''NB'', ''NB''])" .
  then have "\<exists>bundles.
      snd (get_bundles_from_transaction_hashes example_ledger [''NB'', ''NB''] False) = Inr bundles \<and>
      distinct (map (hash \<circ> tail_transaction) bundles) \<and>
      set (map (hash \<circ> tail_transaction) bundles) = {''TB''}"
    unfolding spec .
  with trytes calls gb spec ok ok' show ?thesis by (intro conjI)
qed

section \<open>The claim about failures\<close>

text \<open>
  C8. In a scan and in a call of the resolver, every request but the last has been
  answered without an exception, so nothing is sent after a failed request and none is
  sent again; and if the last request raised \<open>e\<close>, the scan ends with the failure \<open>e\<close>
  and the resolver's call ends with \<open>e\<close> in place of a bundle list. The results a
  consumer has received from fewer pulls are a prefix of the results of more pulls.
\<close>

theorem failures_propagate:
  "(\<forall>c \<in> set (butlast (calls (scan_from ag ad seed start security_level n))). raised ad c = None) \<and>
   (calls (scan_from ag ad seed start security_level n) \<noteq> [] \<and>
    raised ad (last (calls (scan_from ag ad seed start security_level n))) = Some e \<longrightarrow>
      ending (scan_from ag ad seed start security_level n) = Failed e) \<and>
   (m \<le> n \<longrightarrow>
      (\<exists>more. results (scan_from ag ad seed start security_level n) =
         results (scan_from ag ad seed start security_level m) @ more)) \<and>
   (\<forall>c \<in> set (butlast (fst (get_bundles_from_transaction_hashes ad transaction_hashes inclusion_states))).
      raised ad c = None) \<and>
   (fst (get_bundles_from_transaction_hashes ad transaction_hashes inclusion_states) \<noteq> [] \<and>
    raised ad (last (fst (get_bundles_from_transaction_hashes ad transaction_hashes inclusion_states))) =
      Some e \<longrightarrow>
      snd (get_bundles_from_transaction_hashes ad transaction_hashes inclusion_states) = Inl e)"
proof -
  let ?S = "scan_from ag ad seed start security_level n"
  let ?R = "get_bundles_from_transaction_hashes ad transaction_hashes inclusion_states"
  have scan: "(\<forall>c \<in> set (butlast (calls ?S)). raised ad c = None) \<and>
    (calls ?S \<noteq> [] \<and> raised ad (last (calls ?S)) = Some e \<longrightarrow> ending ?S = Failed e)"
  proof (cases "0 \<le> start \<and> 1 \<le> effective_security_level ag security_level")
    case True
    define it where "it = (\<lambda>k. scanned_address ag seed security_level (start + int k))"
    have S: "?S = consume ag ad seed start security_level n (Suspended it 0)"
      unfolding it_def using True by (simp add: scan_from_Suspended)
    show ?thesis
      unfolding S using calls_butlast_raised [where it = it and k = 0 and ad = ad]
        calls_last_raised [where it = it and k = 0 and ad = ad and e = e]
      by (simp (no_asm_simp))
  next
    case False
    then have "calls ?S = []" using scan_from_rejected [of start ag security_level] by auto
    then show ?thesis by simp
  qed
  have more: "m \<le> n \<longrightarrow> (\<exists>more. results ?S = results (scan_from ag ad seed start security_level m) @ more)"
    unfolding scan_from_def by (blast intro: results_extend)
  have "propagates ad ?R" by (rule propagates_get_bundles_from_transaction_hashes)
  then have res: "(\<forall>c \<in> set (butlast (fst ?R)). raised ad c = None) \<and>
    (fst ?R \<noteq> [] \<and> raised ad (last (fst ?R)) = Some e \<longrightarrow> snd ?R = Inl e)"
    unfolding propagates_def by blast
  from scan more res show ?thesis by (simp (no_asm_simp))
qed


text \<open>
  C8 behind the adapter that times out on address 4 and on get-latest-inclusion: the
  scan started at 4 and the resolver's call with inclusion states both end with the
  time-out.
\<close>

theorem failures_propagate_witness:
  "calls (scan_from example_generator flaky_ledger ''SEED'' 4 None 4) \<noteq> [] \<and>
   raised flaky_ledger (last (calls (scan_from example_generator flaky_ledger ''SEED'' 4 None 4))) =
     Some (AdapterError ''timeout'') \<and>
   ending (scan_from example_generator flaky_ledger ''SEED'' 4 None 4) =
     Failed (AdapterError ''timeout'') \<and>
   fst (get_bundles_from_transaction_hashes flaky_ledger [''TA'', ''NB''] True) \<noteq> [] \<and>
   raised flaky_ledger
     (last (fst (get_bundles_from_transaction_hashes flaky_ledger [''TA'', ''NB''] True))) =
     Some (AdapterError ''timeout'') \<and>
   snd (get_bundles_from_transaction_hashes flaky_ledger [''TA'', ''NB''] True) =
     Inl (AdapterError ''timeout'')"
proof -
  have 1: "calls (scan_from example_generator flaky_ledger ''SEED'' 4 None 4) \<noteq> [] \<and>
    raised flaky_ledger (last (calls (scan_from example_generator flaky_ledger ''SEED'' 4 None 4))) =
      Some (AdapterError ''timeout'')"
    by (simp add: ex_defs scan_defs failure_of_def numeral_eq_Suc Let_def)
  have 2: "fst (get_bundles_from_transaction_hashes flaky_ledger [''TA'', ''NB''] True) \<noteq> [] \<and>
    raised flaky_ledger
      (last (fst (get_bundles_from_transaction_hashes flaky_ledger [''TA'', ''NB''] True))) =
      Some (AdapterError ''timeout'')"
    by (simp add: ex_defs resolve_defs failure_of_def Let_def)
  from 1 2
    failures_propagate [where ag = example_generator and ad = flaky_ledger and seed = "''SEED''"
      and start = 4 and security_level = None and n = 4 and m = 0
      and e = "AdapterError ''timeout''" and transaction_hashes = "[''TA'', ''NB'']"
      and inclusion_states = True]
  show ?thesis by blast
qed

end
